theory Spec2Isabelle
  imports Complex_Main "HOL-Library.Sublist"
begin

section \<open>The order book of orderbook.cpp\<close>

text \<open>
  The program is a single class \<open>OrderBook\<close> over two structs, \<open>Order\<close> and \<open>Trade\<close>.
  The embedding keeps the program's shape:
  \<^item> \<open>uint64_t\<close> order ids and \<open>uint32_t\<close> quantities are \<open>nat\<close>. The id counter is
    incremented by one for each order constructed (lemma \<open>counter_value\<close>), so all
    results are about engines that have constructed fewer than \<open>2^64 - 1\<close> orders.
    Quantities are only compared, passed to \<open>std::min\<close> and decremented by that minimum
    (lemma \<open>fill_subtracts_exactly\<close>), which never leaves the range of the type.
  \<^item> \<open>double\<close> prices are \<open>real\<close>: the program only copies and compares prices, it computes
    nothing with them. A NaN is not a price.
  \<^item> The reading of \<open>high_resolution_clock::now()\<close> taken by the \<open>Order\<close> constructor is an
    argument of the operation that constructs the order. A \<open>Trade\<close> records the clock as
    well; nothing in the program reads that field and it is left out.
  \<^item> Orders live on the free store and are shared (\<open>shared_ptr\<close>) between the two queues
    and \<open>order_map\<close>. The free store is the field \<open>store\<close>, a function from addresses to
    orders; the address of an order is its id, since every \<open>make_shared\<close> takes a fresh
    id from the counter. A cell is never deallocated in the model.
  \<^item> A \<open>std::priority_queue\<close> is the list of its elements in priority order: \<open>top\<close> is
    the head, \<open>pop\<close> drops the head, \<open>push\<close> inserts behind every element that the
    comparator does not rank below the new one. Among orders of equal price and equal
    clock reading, which the comparators leave unordered, the place of the new one is a
    choice of the model; the source leaves it to the heap.
\<close>

subsection \<open>Data\<close>

datatype OrderSide = BUY | SELL

datatype OrderType = LIMIT | MARKET

text \<open>Fields \<open>id\<close> and \<open>type\<close> of the source are \<open>id_o\<close> and \<open>type_o\<close> here.\<close>

record Order =
  id_o :: nat
  side :: OrderSide
  type_o :: OrderType
  price :: real
  quantity :: nat
  remaining_quantity :: nat
  timestamp :: nat

text \<open>Fields \<open>price\<close> and \<open>quantity\<close> of a trade are \<open>price_t\<close> and \<open>quantity_t\<close>.\<close>

record Trade =
  buyer_id :: nat
  seller_id :: nat
  price_t :: real
  quantity_t :: nat

record OrderBook =
  buy_orders :: "nat list"
  sell_orders :: "nat list"
  order_map :: "nat \<rightharpoonup> nat"
  trades :: "Trade list"
  next_order_id :: nat
  store :: "nat \<Rightarrow> Order"

text \<open>The constructor of \<open>Order\<close>: the remaining quantity starts at the quantity.\<close>

definition new_order :: "nat \<Rightarrow> OrderSide \<Rightarrow> OrderType \<Rightarrow> real \<Rightarrow> nat \<Rightarrow> nat \<Rightarrow> Order" where
  "new_order i sd ty p q now =
     \<lparr>id_o = i, side = sd, type_o = ty, price = p, quantity = q,
      remaining_quantity = q, timestamp = now\<rparr>"

definition new_trade :: "nat \<Rightarrow> nat \<Rightarrow> real \<Rightarrow> nat \<Rightarrow> Trade" where
  "new_trade b s p q = \<lparr>buyer_id = b, seller_id = s, price_t = p, quantity_t = q\<rparr>"

text \<open>\<open>OrderBook()\<close>: everything empty, the counter at 1. No cell of the store is in use.\<close>

definition init_book :: OrderBook where
  "init_book =
     \<lparr>buy_orders = [], sell_orders = [], order_map = Map.empty, trades = [],
      next_order_id = 1, store = (\<lambda>_. new_order 0 BUY LIMIT 0 0 0)\<rparr>"

subsection \<open>Comparators and queues\<close>

definition BuyOrderComparator :: "Order \<Rightarrow> Order \<Rightarrow> bool" where
  "BuyOrderComparator a b =
     (if price a \<noteq> price b then price a < price b else timestamp a > timestamp b)"

definition SellOrderComparator :: "Order \<Rightarrow> Order \<Rightarrow> bool" where
  "SellOrderComparator a b =
     (if price a \<noteq> price b then price a > price b else timestamp a > timestamp b)"

text \<open>\<open>priority_queue::push\<close>: \<open>cmp y x\<close> says that \<open>y\<close> ranks below \<open>x\<close>.\<close>

fun pq_push :: "(Order \<Rightarrow> Order \<Rightarrow> bool) \<Rightarrow> (nat \<Rightarrow> Order) \<Rightarrow> nat \<Rightarrow> nat list \<Rightarrow> nat list" where
  "pq_push cmp h x [] = [x]"
| "pq_push cmp h x (y # q) =
     (if cmp (h y) (h x) then x # y # q else y # pq_push cmp h x q)"

text \<open>One loop of \<open>clean_empty_orders\<close>: pop while the top has nothing remaining.\<close>

fun clean_queue :: "(nat \<Rightarrow> Order) \<Rightarrow> nat list \<Rightarrow> nat list" where
  "clean_queue h [] = []"
| "clean_queue h (p # q) =
     (if remaining_quantity (h p) = 0 then clean_queue h q else p # q)"

definition clean_empty_orders :: "OrderBook \<Rightarrow> OrderBook" where
  "clean_empty_orders s =
     s\<lparr>buy_orders := clean_queue (store s) (buy_orders s),
       sell_orders := clean_queue (store s) (sell_orders s)\<rparr>"

subsection \<open>The trade block of the matching loops\<close>

text \<open>
  Lines 189 to 198, the same text in \<open>match_buy_order\<close> and in the buy branch of
  \<open>add_market_order\<close>: \<open>b\<close> is the incoming buy order, \<open>a\<close> is \<open>best_sell\<close>. The two
  decrements are two writes, the second reading the store the first has written.
\<close>

definition fill_buy :: "OrderBook \<Rightarrow> nat \<Rightarrow> nat \<Rightarrow> OrderBook" where
  "fill_buy s b a =
     (let trade_quantity = min (remaining_quantity (store s b)) (remaining_quantity (store s a));
          s1 = s\<lparr>trades := trades s @
                 [new_trade (id_o (store s b)) (id_o (store s a)) (price (store s a)) trade_quantity]\<rparr>;
          s2 = s1\<lparr>store := (store s1)(b := (store s1 b)
                 \<lparr>remaining_quantity := remaining_quantity (store s1 b) - trade_quantity\<rparr>)\<rparr>;
          s3 = s2\<lparr>store := (store s2)(a := (store s2 a)
                 \<lparr>remaining_quantity := remaining_quantity (store s2 a) - trade_quantity\<rparr>)\<rparr>
      in if remaining_quantity (store s3 a) = 0
         then s3\<lparr>order_map := (order_map s3)(id_o (store s3 a) := None)\<rparr>
         else s3)"

text \<open>
  Lines 215 to 224, and the sell branch of \<open>add_market_order\<close>: \<open>t\<close> is the incoming sell
  order, \<open>b\<close> is \<open>best_buy\<close>.
\<close>

definition fill_sell :: "OrderBook \<Rightarrow> nat \<Rightarrow> nat \<Rightarrow> OrderBook" where
  "fill_sell s t b =
     (let trade_quantity = min (remaining_quantity (store s t)) (remaining_quantity (store s b));
          s1 = s\<lparr>trades := trades s @
                 [new_trade (id_o (store s b)) (id_o (store s t)) (price (store s b)) trade_quantity]\<rparr>;
          s2 = s1\<lparr>store := (store s1)(t := (store s1 t)
                 \<lparr>remaining_quantity := remaining_quantity (store s1 t) - trade_quantity\<rparr>)\<rparr>;
          s3 = s2\<lparr>store := (store s2)(b := (store s2 b)
                 \<lparr>remaining_quantity := remaining_quantity (store s2 b) - trade_quantity\<rparr>)\<rparr>
      in if remaining_quantity (store s3 b) = 0
         then s3\<lparr>order_map := (order_map s3)(id_o (store s3 b) := None)\<rparr>
         else s3)"

text \<open>
  What is left to trade on a queue. Every pass of a matching loop that reaches the trade
  block lowers it on the opposite queue, which is why the loops end.
\<close>

definition liquidity :: "(nat \<Rightarrow> Order) \<Rightarrow> nat list \<Rightarrow> nat" where
  "liquidity h q = sum_list (map (\<lambda>p. remaining_quantity (h p)) q)"

lemma clean_empty_orders_simps [simp]:
  "store (clean_empty_orders s) = store s"
  "sell_orders (clean_empty_orders s) = clean_queue (store s) (sell_orders s)"
  "buy_orders (clean_empty_orders s) = clean_queue (store s) (buy_orders s)"
  "trades (clean_empty_orders s) = trades s"
  "order_map (clean_empty_orders s) = order_map s"
  "next_order_id (clean_empty_orders s) = next_order_id s"
  by (simp_all add: clean_empty_orders_def)

lemma liquidity_clean_queue: "liquidity h (clean_queue h q) = liquidity h q"
  by (induction q) (simp_all add: liquidity_def)

lemma clean_queue_top_active:
  "clean_queue h q = a # r \<Longrightarrow> 0 < remaining_quantity (h a)"
  by (induction q) (auto split: if_splits)

lemma liquidity_mono:
  "(\<And>p. remaining_quantity (h' p) \<le> remaining_quantity (h p)) \<Longrightarrow>
   liquidity h' q \<le> liquidity h q"
  by (induction q) (auto simp: liquidity_def add_mono)

lemma liquidity_less:
  assumes "\<And>p. remaining_quantity (h' p) \<le> remaining_quantity (h p)"
    and "a \<in> set q" and "remaining_quantity (h' a) < remaining_quantity (h a)"
  shows "liquidity h' q < liquidity h q"
  using assms(2)
proof (induction q)
  case Nil
  then show ?case by simp
next
  case (Cons x q)
  show ?case
  proof (cases "x = a")
    case True
    have "liquidity h' q \<le> liquidity h q" by (rule liquidity_mono) (rule assms(1))
    with assms(3) True show ?thesis by (simp add: liquidity_def)
  next
    case False
    with Cons have "liquidity h' q < liquidity h q" by simp
    moreover have "remaining_quantity (h' x) \<le> remaining_quantity (h x)" by (rule assms(1))
    ultimately show ?thesis by (simp add: liquidity_def)
  qed
qed

lemma fill_buy_fields [simp]:
  "sell_orders (fill_buy s b a) = sell_orders s"
  "buy_orders (fill_buy s b a) = buy_orders s"
  "next_order_id (fill_buy s b a) = next_order_id s"
  by (simp_all add: fill_buy_def Let_def)

lemma fill_sell_fields [simp]:
  "sell_orders (fill_sell s t b) = sell_orders s"
  "buy_orders (fill_sell s t b) = buy_orders s"
  "next_order_id (fill_sell s t b) = next_order_id s"
  by (simp_all add: fill_sell_def Let_def)

lemma fill_buy_remaining_le:
  "remaining_quantity (store (fill_buy s b a) p) \<le> remaining_quantity (store s p)"
  by (simp add: fill_buy_def Let_def)

lemma fill_buy_remaining_less:
  "0 < remaining_quantity (store s b) \<Longrightarrow> 0 < remaining_quantity (store s a) \<Longrightarrow>
   remaining_quantity (store (fill_buy s b a) a) < remaining_quantity (store s a)"
  by (simp add: fill_buy_def Let_def)

lemma fill_sell_remaining_le:
  "remaining_quantity (store (fill_sell s t b) p) \<le> remaining_quantity (store s p)"
  by (simp add: fill_sell_def Let_def)

lemma fill_sell_remaining_less:
  "0 < remaining_quantity (store s t) \<Longrightarrow> 0 < remaining_quantity (store s b) \<Longrightarrow>
   remaining_quantity (store (fill_sell s t b) b) < remaining_quantity (store s b)"
  by (simp add: fill_sell_def Let_def)

lemma fill_buy_liquidity:
  assumes "sell_orders (clean_empty_orders s) = a # r"
    and "0 < remaining_quantity (store s b)"
  shows "liquidity (store (fill_buy (clean_empty_orders s) b a)) (sell_orders (clean_empty_orders s))
         < liquidity (store s) (sell_orders s)"
proof -
  let ?c = "clean_empty_orders s"
  from assms(1) have act: "0 < remaining_quantity (store ?c a)"
    using clean_queue_top_active [of "store s" "sell_orders s" a r] by simp
  have "liquidity (store (fill_buy ?c b a)) (sell_orders ?c) < liquidity (store ?c) (sell_orders ?c)"
  proof (rule liquidity_less)
    show "a \<in> set (sell_orders ?c)" using assms(1) by simp
    show "remaining_quantity (store (fill_buy ?c b a) a) < remaining_quantity (store ?c a)"
      using act assms(2) by (intro fill_buy_remaining_less) simp_all
  qed (rule fill_buy_remaining_le)
  then show ?thesis by (simp add: liquidity_clean_queue)
qed

lemma fill_sell_liquidity:
  assumes "buy_orders (clean_empty_orders s) = b # r"
    and "0 < remaining_quantity (store s t)"
  shows "liquidity (store (fill_sell (clean_empty_orders s) t b)) (buy_orders (clean_empty_orders s))
         < liquidity (store s) (buy_orders s)"
proof -
  let ?c = "clean_empty_orders s"
  from assms(1) have act: "0 < remaining_quantity (store ?c b)"
    using clean_queue_top_active [of "store s" "buy_orders s" b r] by simp
  have "liquidity (store (fill_sell ?c t b)) (buy_orders ?c) < liquidity (store ?c) (buy_orders ?c)"
  proof (rule liquidity_less)
    show "b \<in> set (buy_orders ?c)" using assms(1) by simp
    show "remaining_quantity (store (fill_sell ?c t b) b) < remaining_quantity (store ?c b)"
      using act assms(2) by (intro fill_sell_remaining_less) simp_all
  qed (rule fill_sell_remaining_le)
  then show ?thesis by (simp add: liquidity_clean_queue)
qed

subsection \<open>The matching loops\<close>

text \<open>
  \<open>match_buy_order\<close>, lines 176 to 200. The order is passed as its address. The branch
  for \<open>continue\<close> is kept although \<open>clean_empty_orders\<close> has just made it dead.
\<close>

function match_buy_order :: "OrderBook \<Rightarrow> nat \<Rightarrow> OrderBook" where
  "match_buy_order s buy_order =
     (if 0 < remaining_quantity (store s buy_order) \<and> sell_orders s \<noteq> [] then
        (let s1 = clean_empty_orders s in
         case sell_orders s1 of
           [] \<Rightarrow> s1
         | best_sell # _ \<Rightarrow>
             if remaining_quantity (store s1 best_sell) = 0 then match_buy_order s1 buy_order
             else if price (store s1 buy_order) < price (store s1 best_sell) then s1
             else match_buy_order (fill_buy s1 buy_order best_sell) buy_order)
      else s)"
  by pat_completeness auto
termination
proof (relation "measure (\<lambda>(s, b). liquidity (store s) (sell_orders s))", goal_cases)
  case 1
  show ?case by simp
next
  case (2 s buy_order s1 best_sell r)
  then show ?case
    using clean_queue_top_active [of "store s" "sell_orders s" best_sell r] by simp
next
  case (3 s buy_order s1 best_sell r)
  then show ?case using fill_buy_liquidity [of s best_sell r buy_order] by simp
qed

text \<open>\<open>match_sell_order\<close>, lines 202 to 226.\<close>

function match_sell_order :: "OrderBook \<Rightarrow> nat \<Rightarrow> OrderBook" where
  "match_sell_order s sell_order =
     (if 0 < remaining_quantity (store s sell_order) \<and> buy_orders s \<noteq> [] then
        (let s1 = clean_empty_orders s in
         case buy_orders s1 of
           [] \<Rightarrow> s1
         | best_buy # _ \<Rightarrow>
             if remaining_quantity (store s1 best_buy) = 0 then match_sell_order s1 sell_order
             else if price (store s1 sell_order) > price (store s1 best_buy) then s1
             else match_sell_order (fill_sell s1 sell_order best_buy) sell_order)
      else s)"
  by pat_completeness auto
termination
proof (relation "measure (\<lambda>(s, t). liquidity (store s) (buy_orders s))", goal_cases)
  case 1
  show ?case by simp
next
  case (2 s sell_order s1 best_buy r)
  then show ?case
    using clean_queue_top_active [of "store s" "buy_orders s" best_buy r] by simp
next
  case (3 s sell_order s1 best_buy r)
  then show ?case using fill_sell_liquidity [of s best_buy r sell_order] by simp
qed

text \<open>
  The two loops of \<open>add_market_order\<close>, lines 121 to 139 and 142 to 160. They carry the
  local vector \<open>order_trades\<close>; \<open>trades.back()\<close> is read after the trade block here, which
  appends one trade and then leaves \<open>trades\<close> alone.
\<close>

function market_buy_loop :: "OrderBook \<Rightarrow> nat \<Rightarrow> Trade list \<Rightarrow> OrderBook \<times> Trade list" where
  "market_buy_loop s order order_trades =
     (if 0 < remaining_quantity (store s order) \<and> sell_orders s \<noteq> [] then
        (let s1 = clean_empty_orders s in
         case sell_orders s1 of
           [] \<Rightarrow> (s1, order_trades)
         | best_sell # _ \<Rightarrow>
             if remaining_quantity (store s1 best_sell) = 0
             then market_buy_loop s1 order order_trades
             else market_buy_loop (fill_buy s1 order best_sell) order
                    (order_trades @ [last (trades (fill_buy s1 order best_sell))]))
      else (s, order_trades))"
  by pat_completeness auto
termination
proof (relation "measure (\<lambda>(s, b, ts). liquidity (store s) (sell_orders s))", goal_cases)
  case 1
  show ?case by simp
next
  case (2 s order order_trades s1 best_sell r)
  then show ?case
    using clean_queue_top_active [of "store s" "sell_orders s" best_sell r] by simp
next
  case (3 s order order_trades s1 best_sell r)
  then show ?case using fill_buy_liquidity [of s best_sell r order] by simp
qed

function market_sell_loop :: "OrderBook \<Rightarrow> nat \<Rightarrow> Trade list \<Rightarrow> OrderBook \<times> Trade list" where
  "market_sell_loop s order order_trades =
     (if 0 < remaining_quantity (store s order) \<and> buy_orders s \<noteq> [] then
        (let s1 = clean_empty_orders s in
         case buy_orders s1 of
           [] \<Rightarrow> (s1, order_trades)
         | best_buy # _ \<Rightarrow>
             if remaining_quantity (store s1 best_buy) = 0
             then market_sell_loop s1 order order_trades
             else market_sell_loop (fill_sell s1 order best_buy) order
                    (order_trades @ [last (trades (fill_sell s1 order best_buy))]))
      else (s, order_trades))"
  by pat_completeness auto
termination
proof (relation "measure (\<lambda>(s, t, ts). liquidity (store s) (buy_orders s))", goal_cases)
  case 1
  show ?case by simp
next
  case (2 s order order_trades s1 best_buy r)
  then show ?case
    using clean_queue_top_active [of "store s" "buy_orders s" best_buy r] by simp
next
  case (3 s order order_trades s1 best_buy r)
  then show ?case using fill_sell_liquidity [of s best_buy r order] by simp
qed

subsection \<open>The public operations\<close>

text \<open>
  \<open>add_limit_order\<close>, lines 94 to 113. \<open>now\<close> is the clock reading of the constructor.
  The result is the returned id and the book afterwards.
\<close>

definition add_limit_order :: "OrderBook \<Rightarrow> OrderSide \<Rightarrow> real \<Rightarrow> nat \<Rightarrow> nat \<Rightarrow> nat \<times> OrderBook" where
  "add_limit_order s sd p q now =
     (let order = next_order_id s;
          s1 = s\<lparr>next_order_id := next_order_id s + 1,
                 store := (store s)(order := new_order order sd LIMIT p q now)\<rparr>;
          s2 = s1\<lparr>order_map := (order_map s1)(id_o (store s1 order) \<mapsto> order)\<rparr>;
          s4 = (if sd = BUY then
                  (let s3 = match_buy_order s2 order in
                   if 0 < remaining_quantity (store s3 order)
                   then s3\<lparr>buy_orders := pq_push BuyOrderComparator (store s3) order (buy_orders s3)\<rparr>
                   else s3)
                else
                  (let s3 = match_sell_order s2 order in
                   if 0 < remaining_quantity (store s3 order)
                   then s3\<lparr>sell_orders := pq_push SellOrderComparator (store s3) order (sell_orders s3)\<rparr>
                   else s3))
      in (id_o (store s4 order), s4))"

text \<open>
  \<open>add_market_order\<close>, lines 115 to 164: the order is constructed with price \<open>0.0\<close>, is
  not entered in \<open>order_map\<close> and is pushed on no queue.
\<close>

definition add_market_order :: "OrderBook \<Rightarrow> OrderSide \<Rightarrow> nat \<Rightarrow> nat \<Rightarrow> Trade list \<times> OrderBook" where
  "add_market_order s sd q now =
     (let order = next_order_id s;
          s1 = s\<lparr>next_order_id := next_order_id s + 1,
                 store := (store s)(order := new_order order sd MARKET 0 q now)\<rparr>;
          (s2, order_trades) = (if sd = BUY then market_buy_loop s1 order []
                                else market_sell_loop s1 order [])
      in (order_trades, s2))"

text \<open>\<open>cancel_order\<close>, lines 166 to 174.\<close>

definition cancel_order :: "OrderBook \<Rightarrow> nat \<Rightarrow> bool \<times> OrderBook" where
  "cancel_order s order_id =
     (case order_map s order_id of
        Some p \<Rightarrow>
          (True, s\<lparr>store := (store s)(p := (store s p)\<lparr>remaining_quantity := 0\<rparr>),
                   order_map := (order_map s)(order_id := None)\<rparr>)
      | None \<Rightarrow> (False, s))"

text \<open>
  The loop of \<open>get_best_bid\<close> and of \<open>get_best_ask\<close> over a copy of the queue: the price
  of the first order with something remaining, \<open>0.0\<close> when the copy runs empty.
\<close>

fun best_price_loop :: "(nat \<Rightarrow> Order) \<Rightarrow> nat list \<Rightarrow> real" where
  "best_price_loop h [] = 0"
| "best_price_loop h (p # q) =
     (if 0 < remaining_quantity (h p) then price (h p) else best_price_loop h q)"

definition get_best_bid :: "OrderBook \<Rightarrow> real" where
  "get_best_bid s = best_price_loop (store s) (buy_orders s)"

definition get_best_ask :: "OrderBook \<Rightarrow> real" where
  "get_best_ask s = best_price_loop (store s) (sell_orders s)"

definition get_trade_count :: "OrderBook \<Rightarrow> nat" where
  "get_trade_count s = length (trades s)"

subsection \<open>Sequences of operations\<close>

text \<open>
  A call of one of the three mutating operations, with its arguments and, for the two
  that construct an order, the clock reading.
\<close>

datatype Op =
  AddLimit OrderSide real nat nat
| AddMarket OrderSide nat nat
| Cancel nat

fun apply_op :: "OrderBook \<Rightarrow> Op \<Rightarrow> OrderBook" where
  "apply_op s (AddLimit sd p q now) = snd (add_limit_order s sd p q now)"
| "apply_op s (AddMarket sd q now) = snd (add_market_order s sd q now)"
| "apply_op s (Cancel i) = snd (cancel_order s i)"

definition run :: "Op list \<Rightarrow> OrderBook" where
  "run ops = foldl apply_op init_book ops"

text \<open>The operations that construct an order, and so take a value of the counter.\<close>

fun constructs :: "Op \<Rightarrow> bool" where
  "constructs (AddLimit sd p q now) = True"
| "constructs (AddMarket sd q now) = True"
| "constructs (Cancel i) = False"

declare match_buy_order.simps [simp del] match_sell_order.simps [simp del]
  market_buy_loop.simps [simp del] market_sell_loop.simps [simp del]

section \<open>One loop for the four\<close>

text \<open>
  The four loops differ in the queue they read, in the side the incoming order is written
  on in a trade, and in the test on the price, which the two market loops do not have.
  \<open>sweep\<close> is the loop with these three as parameters; \<open>lmt\<close> says that the incoming
  order is a limit order. It is a device of the proofs: the lemmas that follow it show
  that each loop of the source is an instance.
\<close>

definition opp_queue :: "OrderSide \<Rightarrow> OrderBook \<Rightarrow> nat list" where
  "opp_queue sd s = (case sd of BUY \<Rightarrow> sell_orders s | SELL \<Rightarrow> buy_orders s)"

definition own_queue :: "OrderSide \<Rightarrow> OrderBook \<Rightarrow> nat list" where
  "own_queue sd s = (case sd of BUY \<Rightarrow> buy_orders s | SELL \<Rightarrow> sell_orders s)"

definition fill :: "OrderSide \<Rightarrow> OrderBook \<Rightarrow> nat \<Rightarrow> nat \<Rightarrow> OrderBook" where
  "fill sd s t m = (case sd of BUY \<Rightarrow> fill_buy s t m | SELL \<Rightarrow> fill_sell s t m)"

definition stops :: "bool \<Rightarrow> OrderSide \<Rightarrow> Order \<Rightarrow> Order \<Rightarrow> bool" where
  "stops lmt sd t m =
     (lmt \<and> (case sd of BUY \<Rightarrow> price t < price m | SELL \<Rightarrow> price t > price m))"

lemma opp_queue_clean [simp]:
  "opp_queue sd (clean_empty_orders s) = clean_queue (store s) (opp_queue sd s)"
  by (cases sd) (simp_all add: opp_queue_def)

lemma own_queue_clean [simp]:
  "own_queue sd (clean_empty_orders s) = clean_queue (store s) (own_queue sd s)"
  by (cases sd) (simp_all add: own_queue_def)

lemma fill_liquidity:
  assumes "opp_queue sd (clean_empty_orders s) = m # r"
    and "0 < remaining_quantity (store s t)"
  shows "liquidity (store (fill sd (clean_empty_orders s) t m)) (opp_queue sd (clean_empty_orders s))
         < liquidity (store s) (opp_queue sd s)"
proof (cases sd)
  case BUY
  with assms fill_buy_liquidity [of s m r t] show ?thesis
    by (simp add: opp_queue_def fill_def)
next
  case SELL
  with assms fill_sell_liquidity [of s m r t] show ?thesis
    by (simp add: opp_queue_def fill_def)
qed

lemma opp_queue_fill [simp]: "opp_queue sd (fill sd' s t m) = opp_queue sd s"
  by (cases sd; cases sd') (simp_all add: opp_queue_def fill_def)

lemma own_queue_fill [simp]: "own_queue sd (fill sd' s t m) = own_queue sd s"
  by (cases sd; cases sd') (simp_all add: own_queue_def fill_def)

function sweep :: "bool \<Rightarrow> OrderSide \<Rightarrow> OrderBook \<Rightarrow> nat \<Rightarrow> OrderBook" where
  "sweep lmt sd s t =
     (if 0 < remaining_quantity (store s t) \<and> opp_queue sd s \<noteq> [] then
        (let s1 = clean_empty_orders s in
         case opp_queue sd s1 of
           [] \<Rightarrow> s1
         | m # _ \<Rightarrow>
             if remaining_quantity (store s1 m) = 0 then sweep lmt sd s1 t
             else if stops lmt sd (store s1 t) (store s1 m) then s1
             else sweep lmt sd (fill sd s1 t m) t)
      else s)"
  by pat_completeness auto
termination
proof (relation "measure (\<lambda>(lmt, sd, s, t). liquidity (store s) (opp_queue sd s))", goal_cases)
  case 1
  show ?case by simp
next
  case (2 lmt sd s t s1 m r)
  then show ?case
    using clean_queue_top_active [of "store s" "opp_queue sd s" m r] by simp
next
  case (3 lmt sd s t s1 m r)
  then show ?case using fill_liquidity [of sd s m r t] by simp
qed

declare sweep.simps [simp del]

section \<open>Notions for the statements and the proofs\<close>

text \<open>
  An order without its remaining quantity, the one field that is ever written after the
  constructor.
\<close>

definition static :: "Order \<Rightarrow> Order" where
  "static x = x\<lparr>remaining_quantity := 0\<rparr>"

text \<open>
  What every step of a matching loop and \<open>cancel_order\<close> do to a book: orders only lose
  remaining quantity, the queues only lose elements from the top, \<open>order_map\<close> only loses
  entries, \<open>trades\<close> only grows at the end, the counter stays.
\<close>

definition evolves :: "OrderBook \<Rightarrow> OrderBook \<Rightarrow> bool" where
  "evolves s s' \<longleftrightarrow>
     next_order_id s' = next_order_id s \<and>
     (\<forall>p. static (store s' p) = static (store s p) \<and>
          remaining_quantity (store s' p) \<le> remaining_quantity (store s p)) \<and>
     suffix (buy_orders s') (buy_orders s) \<and>
     suffix (sell_orders s') (sell_orders s) \<and>
     order_map s' \<subseteq>\<^sub>m order_map s \<and>
     prefix (trades s) (trades s')"

text \<open>
  The id a trade records for the resting order and for the incoming order, when the
  incoming order is on side \<open>sd\<close>.
\<close>

definition maker_id :: "OrderSide \<Rightarrow> Trade \<Rightarrow> nat" where
  "maker_id sd tr = (case sd of BUY \<Rightarrow> seller_id tr | SELL \<Rightarrow> buyer_id tr)"

definition taker_id :: "OrderSide \<Rightarrow> Trade \<Rightarrow> nat" where
  "taker_id sd tr = (case sd of BUY \<Rightarrow> buyer_id tr | SELL \<Rightarrow> seller_id tr)"

text \<open>The trades that \<open>s'\<close> has appended to those of \<open>s\<close>.\<close>

definition new_trades :: "OrderBook \<Rightarrow> OrderBook \<Rightarrow> Trade list" where
  "new_trades s s' = drop (length (trades s)) (trades s')"

text \<open>The trade that the trade block appends.\<close>

definition fill_trade :: "OrderSide \<Rightarrow> OrderBook \<Rightarrow> nat \<Rightarrow> nat \<Rightarrow> Trade" where
  "fill_trade sd s t m =
     (let q = min (remaining_quantity (store s t)) (remaining_quantity (store s m)) in
      case sd of
        BUY \<Rightarrow> new_trade (id_o (store s t)) (id_o (store s m)) (price (store s m)) q
      | SELL \<Rightarrow> new_trade (id_o (store s m)) (id_o (store s t)) (price (store s m)) q)"

definition active :: "(nat \<Rightarrow> Order) \<Rightarrow> nat \<Rightarrow> bool" where
  "active h p \<longleftrightarrow> 0 < remaining_quantity (h p)"

text \<open>
  \<open>made_by sd s t tr\<close>: the trade \<open>tr\<close> names the order at \<open>t\<close> as the incoming one and
  takes its price from an order that rests on the opposite queue of \<open>s\<close> with something
  remaining.
\<close>

definition made_by :: "OrderSide \<Rightarrow> OrderBook \<Rightarrow> nat \<Rightarrow> Trade \<Rightarrow> bool" where
  "made_by sd s t tr \<longleftrightarrow>
     taker_id sd tr = id_o (store s t) \<and>
     (\<exists>m \<in> set (opp_queue sd s). active (store s) m \<and>
        maker_id sd tr = id_o (store s m) \<and> price_t tr = price (store s m) \<and>
        0 < quantity_t tr \<and> quantity_t tr \<le> remaining_quantity (store s m))"

text \<open>The quantity that the trades of a list record for the order id \<open>i\<close>.\<close>

definition traded :: "Trade list \<Rightarrow> nat \<Rightarrow> nat" where
  "traded ts i = sum_list (map quantity_t (filter (\<lambda>tr. buyer_id tr = i \<or> seller_id tr = i) ts))"

text \<open>
  \<open>placed\<close> is the book after the constructor has run and, for a limit order, after
  the order is entered in \<open>order_map\<close>; \<open>rest\<close> is the push at the end of
  \<open>add_limit_order\<close>. With \<open>sweep\<close> between them they give both operations.
\<close>

definition placed :: "OrderBook \<Rightarrow> Order \<Rightarrow> bool \<Rightarrow> OrderBook" where
  "placed s x reg =
     s\<lparr>next_order_id := next_order_id s + 1,
       store := (store s)(next_order_id s := x),
       order_map := (if reg then (order_map s)(id_o x \<mapsto> next_order_id s) else order_map s)\<rparr>"

definition rest :: "OrderSide \<Rightarrow> OrderBook \<Rightarrow> nat \<Rightarrow> OrderBook" where
  "rest sd s t =
     (if 0 < remaining_quantity (store s t) then
        (case sd of
           BUY \<Rightarrow> s\<lparr>buy_orders := pq_push BuyOrderComparator (store s) t (buy_orders s)\<rparr>
         | SELL \<Rightarrow> s\<lparr>sell_orders := pq_push SellOrderComparator (store s) t (sell_orders s)\<rparr>)
      else s)"

text \<open>
  A queue is ranked when no element is ranked by the comparator below one that comes
  after it.
\<close>

definition ranked :: "(Order \<Rightarrow> Order \<Rightarrow> bool) \<Rightarrow> (nat \<Rightarrow> Order) \<Rightarrow> nat list \<Rightarrow> bool" where
  "ranked cmp h q \<longleftrightarrow> sorted_wrt (\<lambda>x y. \<not> cmp (h x) (h y)) q"

text \<open>
  Addresses and ids: the counter is ahead of every address in use, an order sits at the
  address that is its id, \<open>order_map\<close> maps an id to that address.
\<close>

definition addresses_ok :: "OrderBook \<Rightarrow> bool" where
  "addresses_ok s \<longleftrightarrow>
     0 < next_order_id s \<and>
     (\<forall>p \<in> set (buy_orders s) \<union> set (sell_orders s). 0 < p \<and> p < next_order_id s) \<and>
     (\<forall>i p. order_map s i = Some p \<longrightarrow> p = i \<and> 0 < i \<and> i < next_order_id s) \<and>
     (\<forall>p. 0 < p \<longrightarrow> p < next_order_id s \<longrightarrow> id_o (store s p) = p)"

text \<open>Each queue holds limit orders of its side, each once.\<close>

definition resting_ok :: "OrderBook \<Rightarrow> bool" where
  "resting_ok s \<longleftrightarrow>
     distinct (buy_orders s) \<and> distinct (sell_orders s) \<and>
     (\<forall>p \<in> set (buy_orders s). type_o (store s p) = LIMIT \<and> side (store s p) = BUY) \<and>
     (\<forall>p \<in> set (sell_orders s). type_o (store s p) = LIMIT \<and> side (store s p) = SELL)"

definition ranked_ok :: "OrderBook \<Rightarrow> bool" where
  "ranked_ok s \<longleftrightarrow>
     ranked BuyOrderComparator (store s) (buy_orders s) \<and>
     ranked SellOrderComparator (store s) (sell_orders s)"

text \<open>No bid with something remaining is priced at or above such an ask.\<close>

definition uncrossed :: "OrderBook \<Rightarrow> bool" where
  "uncrossed s \<longleftrightarrow>
     (\<forall>b \<in> set (buy_orders s). \<forall>a \<in> set (sell_orders s).
        active (store s) b \<longrightarrow> active (store s) a \<longrightarrow> price (store s b) < price (store s a))"

text \<open>
  Trades name orders that exist, and what the trades record for an order, with what
  remains of it, is within its quantity.
\<close>

definition fills_ok :: "OrderBook \<Rightarrow> bool" where
  "fills_ok s \<longleftrightarrow>
     (\<forall>tr \<in> set (trades s). buyer_id tr < next_order_id s \<and> seller_id tr < next_order_id s) \<and>
     (\<forall>p. traded (trades s) p + remaining_quantity (store s p) \<le> quantity (store s p))"

definition wf_book :: "OrderBook \<Rightarrow> bool" where
  "wf_book s \<longleftrightarrow> addresses_ok s \<and> resting_ok s \<and> ranked_ok s \<and> uncrossed s \<and> fills_ok s"

text \<open>The ids that the calls of \<open>add_limit_order\<close> in a sequence return, in order.\<close>

fun limit_ids :: "OrderBook \<Rightarrow> Op list \<Rightarrow> nat list" where
  "limit_ids s [] = []"
| "limit_ids s (AddLimit sd p q now # ops) =
     fst (add_limit_order s sd p q now) # limit_ids (apply_op s (AddLimit sd p q now)) ops"
| "limit_ids s (AddMarket sd q now # ops) = limit_ids (apply_op s (AddMarket sd q now)) ops"
| "limit_ids s (Cancel i # ops) = limit_ids (apply_op s (Cancel i)) ops"

text \<open>
  The first seven calls of \<open>main\<close>, lines 332 to 344, with arbitrary clock readings.
\<close>

definition scenario_1 :: "nat \<Rightarrow> nat \<Rightarrow> nat \<Rightarrow> nat \<Rightarrow> nat \<Rightarrow> nat \<Rightarrow> nat \<Rightarrow> Op list" where
  "scenario_1 t1 t2 t3 t4 t5 t6 t7 =
     [AddLimit BUY 100.50 100 t1, AddLimit BUY 100.25 200 t2, AddLimit BUY 100.75 50 t3,
      AddLimit SELL 101.00 150 t4, AddLimit SELL 101.25 100 t5, AddLimit SELL 100.90 75 t6,
      AddLimit BUY 101.10 200 t7]"

text \<open>
  \<open>maker_priced sd s i p tr\<close>: the trade \<open>tr\<close>, made for an incoming order of side \<open>sd\<close>
  with id \<open>i\<close> and price \<open>p\<close> on the book \<open>s\<close>, names \<open>i\<close> on the incoming side and on
  the other side a limit order that rests on the opposite queue of \<open>s\<close> with something
  remaining, and carries the price of that resting order; so it does not carry \<open>p\<close>
  unless the resting order has that very price.
\<close>

definition maker_priced :: "OrderSide \<Rightarrow> OrderBook \<Rightarrow> nat \<Rightarrow> real \<Rightarrow> Trade \<Rightarrow> bool" where
  "maker_priced sd s i p tr \<longleftrightarrow>
     taker_id sd tr = i \<and>
     maker_id sd tr \<in> set (opp_queue sd s) \<and>
     id_o (store s (maker_id sd tr)) = maker_id sd tr \<and>
     type_o (store s (maker_id sd tr)) = LIMIT \<and>
     0 < remaining_quantity (store s (maker_id sd tr)) \<and>
     price_t tr = price (store s (maker_id sd tr)) \<and>
     (price (store s (maker_id sd tr)) \<noteq> p \<longrightarrow> price_t tr \<noteq> p)"

text \<open>
  The ordering as section 4.2 of the specification words it, to be compared with the two
  comparators of the source. The arrival of an order is its \<open>timestamp\<close>.
\<close>

definition bid_outranks :: "Order \<Rightarrow> Order \<Rightarrow> bool" where
  "bid_outranks A B \<longleftrightarrow>
     price A > price B \<or> (price A = price B \<and> timestamp A < timestamp B)"

definition ask_outranks :: "Order \<Rightarrow> Order \<Rightarrow> bool" where
  "ask_outranks A B \<longleftrightarrow>
     price A < price B \<or> (price A = price B \<and> timestamp A < timestamp B)"


text \<open>A limit order, a market order, a cancel and a second limit order.\<close>

definition ids_example :: "Op list" where
  "ids_example = [AddLimit BUY 100 10 1, AddMarket SELL 5 2, Cancel 1, AddLimit SELL 101 7 3]"

text \<open>One resting bid, for a market sell that fills it in part.\<close>

definition partial_fill_example :: "Op list" where
  "partial_fill_example = [AddLimit BUY 100 10 1]"

text \<open>A single bid at the price \<open>0.0\<close>, which \<open>add_limit_order\<close> accepts like any other.\<close>

definition zero_bid_example :: "Op list" where
  "zero_bid_example = [AddLimit BUY 0 10 1]"

text \<open>A resting sell of 10 at 100 and a buy of 10 at 100 that takes all of it.\<close>

definition filled_taker_example :: "Op list" where
  "filled_taker_example = [AddLimit SELL 100 10 1, AddLimit BUY 100 10 2]"

text \<open>
  What the matching loop of section 4.3 of the specification, with the crossing test
  always true, trades for a market order of side \<open>sd\<close>, id \<open>t\<close> and quantity \<open>q\<close> against the
  resting orders \<open>ms\<close> taken in turn: with each the minimum of what remains on the two
  sides, at the price of the resting order, until nothing remains of the market order or
  of the list. It is written from the specification, to be compared with the loops of the
  source.
\<close>

fun market_fills :: "OrderSide \<Rightarrow> nat \<Rightarrow> nat \<Rightarrow> Order list \<Rightarrow> Trade list" where
  "market_fills sd t q [] = []"
| "market_fills sd t q (m # ms) =
     (if q = 0 then []
      else (case sd of
              BUY \<Rightarrow> new_trade t (id_o m) (price m) (min q (remaining_quantity m))
            | SELL \<Rightarrow> new_trade (id_o m) t (price m) (min q (remaining_quantity m)))
           # market_fills sd t (q - min q (remaining_quantity m)) ms)"

text \<open>Two resting asks, for a market buy that takes the first and part of the second.\<close>

definition two_asks_example :: "Op list" where
  "two_asks_example = [AddLimit SELL 100 5 1, AddLimit SELL 101 5 2]"

section \<open>Lemmas about the loops\<close>

lemma match_buy_order_sweep: "match_buy_order s t = sweep True BUY s t"
proof (induction s t rule: match_buy_order.induct)
  case (1 s t)
  show ?case
    apply (subst match_buy_order.simps)
    apply (subst sweep.simps)
    using 1
    apply (auto simp: opp_queue_def fill_def stops_def Let_def split: list.splits)
    done
qed

lemma match_sell_order_sweep: "match_sell_order s t = sweep True SELL s t"
proof (induction s t rule: match_sell_order.induct)
  case (1 s t)
  show ?case
    apply (subst match_sell_order.simps)
    apply (subst sweep.simps)
    using 1
    apply (auto simp: opp_queue_def fill_def stops_def Let_def split: list.splits)
    done
qed

lemma sweep_rule [case_names stop empty nocross fill]:
  assumes stop: "\<And>s. \<not> (0 < remaining_quantity (store s t) \<and> opp_queue sd s \<noteq> []) \<Longrightarrow> P s s"
    and empty: "\<And>s. 0 < remaining_quantity (store s t) \<Longrightarrow> opp_queue sd s \<noteq> [] \<Longrightarrow>
        clean_queue (store s) (opp_queue sd s) = [] \<Longrightarrow> P s (clean_empty_orders s)"
    and nocross: "\<And>s m r. 0 < remaining_quantity (store s t) \<Longrightarrow>
        clean_queue (store s) (opp_queue sd s) = m # r \<Longrightarrow>
        0 < remaining_quantity (store s m) \<Longrightarrow>
        stops lmt sd (store s t) (store s m) \<Longrightarrow> P s (clean_empty_orders s)"
    and fill: "\<And>s m r s'. 0 < remaining_quantity (store s t) \<Longrightarrow>
        clean_queue (store s) (opp_queue sd s) = m # r \<Longrightarrow>
        0 < remaining_quantity (store s m) \<Longrightarrow>
        \<not> stops lmt sd (store s t) (store s m) \<Longrightarrow>
        s' = sweep lmt sd (fill sd (clean_empty_orders s) t m) t \<Longrightarrow>
        P (fill sd (clean_empty_orders s) t m) s' \<Longrightarrow> P s s'"
  shows "P s (sweep lmt sd s t)"
  using assms
proof (induction lmt sd s t rule: sweep.induct)
  case (1 lmt sd s t)
  note stop = "1.prems"(1) and empty = "1.prems"(2) and nocross = "1.prems"(3)
    and fill = "1.prems"(4)
  let ?s1 = "clean_empty_orders s"
  show ?case
  proof (cases "0 < remaining_quantity (store s t) \<and> opp_queue sd s \<noteq> []")
    case False
    then have "sweep lmt sd s t = s" by (subst sweep.simps) auto
    with stop [OF False] show ?thesis by simp
  next
    case True
    show ?thesis
    proof (cases "clean_queue (store s) (opp_queue sd s)")
      case Nil
      with True have "sweep lmt sd s t = ?s1" by (subst sweep.simps) simp
      with empty [of s] True Nil show ?thesis by simp
    next
      case (Cons m r)
      then have act: "0 < remaining_quantity (store s m)"
        by (rule clean_queue_top_active)
      show ?thesis
      proof (cases "stops lmt sd (store s t) (store s m)")
        case st: True
        with True Cons act have "sweep lmt sd s t = ?s1" by (subst sweep.simps) simp
        with nocross [of s m r] True Cons act st show ?thesis by simp
      next
        case st: False
        with True Cons act have eq: "sweep lmt sd s t = sweep lmt sd (fill sd ?s1 t m) t"
          by (subst sweep.simps) simp
        have "P (fill sd ?s1 t m) (sweep lmt sd (fill sd ?s1 t m) t)"
          using "1.IH"(2) [of ?s1 m r] True Cons act st "1.prems" by simp
        with fill [of s m r] True Cons act st eq show ?thesis by simp
      qed
    qed
  qed
qed

lemma static_fields:
  assumes "static a = static b"
  shows "id_o a = id_o b" "side a = side b" "type_o a = type_o b" "price a = price b"
    "quantity a = quantity b" "timestamp a = timestamp b"
  using assms by (cases a; cases b; simp add: static_def)+

lemma static_update [simp]: "static (x\<lparr>remaining_quantity := r\<rparr>) = static x"
  by (simp add: static_def)

lemma clean_queue_suffix: "suffix (clean_queue h q) q"
  by (induction q) (auto simp: suffix_Cons)

lemma evolves_refl [simp]: "evolves s s"
  by (simp add: evolves_def)

lemma evolves_trans: "evolves a b \<Longrightarrow> evolves b c \<Longrightarrow> evolves a c"
  unfolding evolves_def
  by (metis (no_types, lifting) suffix_order.trans prefix_order.trans map_le_trans le_trans)

lemma evolves_clean: "evolves s (clean_empty_orders s)"
  by (simp add: evolves_def clean_queue_suffix)

lemma evolves_fill_buy: "evolves s (fill_buy s b a)"
  by (auto simp: evolves_def fill_buy_def Let_def map_le_def)

lemma evolves_fill_sell: "evolves s (fill_sell s t b)"
  by (auto simp: evolves_def fill_sell_def Let_def map_le_def)

lemma evolves_fill: "evolves s (fill sd s t m)"
  by (cases sd) (simp_all add: fill_def evolves_fill_buy evolves_fill_sell)

lemma evolves_sweep: "evolves s (sweep lmt sd s t)"
proof (induction rule: sweep_rule)
  case (fill s m r s')
  have "evolves s (fill sd (clean_empty_orders s) t m)"
    by (rule evolves_trans [OF evolves_clean evolves_fill])
  with fill show ?case by (blast intro: evolves_trans)
qed (simp_all add: evolves_clean)

lemma evolves_cancel: "evolves s (snd (cancel_order s i))"
  by (auto simp: evolves_def cancel_order_def map_le_def split: option.splits)

lemma trades_fill: "trades (fill sd s t m) = trades s @ [fill_trade sd s t m]"
  by (cases sd) (simp_all add: fill_def fill_buy_def fill_sell_def fill_trade_def Let_def)

lemma fill_trade_fields [simp]:
  "taker_id sd (fill_trade sd s t m) = id_o (store s t)"
  "maker_id sd (fill_trade sd s t m) = id_o (store s m)"
  "price_t (fill_trade sd s t m) = price (store s m)"
  "quantity_t (fill_trade sd s t m) =
     min (remaining_quantity (store s t)) (remaining_quantity (store s m))"
  by (cases sd; simp add: fill_trade_def taker_id_def maker_id_def new_trade_def Let_def)+

lemma fill_trade_clean [simp]:
  "fill_trade sd (clean_empty_orders s) t m = fill_trade sd s t m"
  by (cases sd) (simp_all add: fill_trade_def)

lemma sweep_stop:
  "\<not> (0 < remaining_quantity (store s t) \<and> opp_queue sd s \<noteq> []) \<Longrightarrow> sweep lmt sd s t = s"
  by (subst sweep.simps) auto

lemma sweep_empty:
  "0 < remaining_quantity (store s t) \<Longrightarrow> opp_queue sd s \<noteq> [] \<Longrightarrow>
   clean_queue (store s) (opp_queue sd s) = [] \<Longrightarrow> sweep lmt sd s t = clean_empty_orders s"
  by (subst sweep.simps) auto

lemma new_trades_self [simp]: "new_trades s s = []"
  by (simp add: new_trades_def)

lemma new_trades_clean [simp]:
  "new_trades (clean_empty_orders s) s' = new_trades s s'"
  "new_trades s (clean_empty_orders s') = new_trades s s'"
  by (simp_all add: new_trades_def)

lemma new_trades_fill:
  assumes "prefix (trades (fill sd s t m)) (trades s')"
  shows "new_trades s s' = fill_trade sd s t m # new_trades (fill sd s t m) s'"
proof -
  from assms obtain zs where "trades s' = (trades s @ [fill_trade sd s t m]) @ zs"
    by (auto simp: prefix_def trades_fill)
  then show ?thesis by (simp add: new_trades_def trades_fill)
qed

lemma evolves_trades: "evolves s s' \<Longrightarrow> trades s' = trades s @ new_trades s s'"
  by (auto simp: evolves_def prefix_def new_trades_def)

lemma evolves_prefix: "evolves s s' \<Longrightarrow> prefix (trades s) (trades s')"
  by (simp add: evolves_def)

lemma new_trades_sweep_unfold:
  assumes "0 < remaining_quantity (store s t)"
    and "clean_queue (store s) (opp_queue sd s) = m # r"
    and "\<not> stops lmt sd (store s t) (store s m)"
  shows "sweep lmt sd s t = sweep lmt sd (fill sd (clean_empty_orders s) t m) t"
    and "new_trades s (sweep lmt sd s t) =
         fill_trade sd s t m # new_trades (fill sd (clean_empty_orders s) t m) (sweep lmt sd s t)"
proof -
  let ?f = "fill sd (clean_empty_orders s) t m"
  from assms(2) have ne: "opp_queue sd s \<noteq> []" by auto
  from assms(2) have act: "0 < remaining_quantity (store s m)" by (rule clean_queue_top_active)
  show eq: "sweep lmt sd s t = sweep lmt sd ?f t"
    using assms ne act by (subst sweep.simps) simp
  have "prefix (trades ?f) (trades (sweep lmt sd ?f t))"
    by (rule evolves_prefix [OF evolves_sweep])
  from new_trades_fill [OF this]
  show "new_trades s (sweep lmt sd s t) = fill_trade sd s t m # new_trades ?f (sweep lmt sd s t)"
    by (simp add: eq)
qed

text \<open>
  How a loop ends: the incoming order is exhausted, or the opposite queue is empty, or
  its top has something remaining and the test on the price says stop.
\<close>

lemma sweep_exit:
  "remaining_quantity (store (sweep lmt sd s t) t) = 0 \<or>
   opp_queue sd (sweep lmt sd s t) = [] \<or>
   (\<exists>m r. opp_queue sd (sweep lmt sd s t) = m # r \<and>
      0 < remaining_quantity (store (sweep lmt sd s t) m) \<and>
      stops lmt sd (store (sweep lmt sd s t) t) (store (sweep lmt sd s t) m))"
  by (induction rule: sweep_rule) auto

lemma market_buy_loop_sweep:
  "market_buy_loop s t acc = (sweep False BUY s t, acc @ new_trades s (sweep False BUY s t))"
proof (induction s t acc rule: market_buy_loop.induct)
  case (1 s t acc)
  let ?s1 = "clean_empty_orders s"
  show ?case
  proof (cases "0 < remaining_quantity (store s t) \<and> sell_orders s \<noteq> []")
    case False
    then have "sweep False BUY s t = s" by (intro sweep_stop) (simp add: opp_queue_def)
    with False show ?thesis
      by (subst market_buy_loop.simps) auto
  next
    case True
    show ?thesis
    proof (cases "clean_queue (store s) (sell_orders s)")
      case Nil
      with True have "sweep False BUY s t = clean_empty_orders s"
        by (intro sweep_empty) (simp_all add: opp_queue_def)
      with True Nil show ?thesis
        by (subst market_buy_loop.simps) auto
    next
      case (Cons m r)
      then have act: "0 < remaining_quantity (store s m)" by (rule clean_queue_top_active)
      have c: "clean_queue (store s) (opp_queue BUY s) = m # r" using Cons by (simp add: opp_queue_def)
      have ns: "\<not> stops False BUY (store s t) (store s m)" by (simp add: stops_def)
      have l: "last (trades (fill_buy ?s1 t m)) = fill_trade BUY s t m"
        using trades_fill [of BUY ?s1 t m] by (simp add: fill_def)
      have "market_buy_loop s t acc =
            market_buy_loop (fill_buy ?s1 t m) t (acc @ [last (trades (fill_buy ?s1 t m))])"
        using True Cons act by (subst market_buy_loop.simps) (simp add: Let_def)
      also have "\<dots> = (sweep False BUY (fill_buy ?s1 t m) t,
           (acc @ [fill_trade BUY s t m]) @ new_trades (fill_buy ?s1 t m) (sweep False BUY (fill_buy ?s1 t m) t))"
        using "1.IH"(2) [of ?s1 m r] True Cons act by (simp add: l)
      finally show ?thesis
        using new_trades_sweep_unfold [OF _ c ns] True by (simp add: fill_def)
    qed
  qed
qed

lemma market_sell_loop_sweep:
  "market_sell_loop s t acc = (sweep False SELL s t, acc @ new_trades s (sweep False SELL s t))"
proof (induction s t acc rule: market_sell_loop.induct)
  case (1 s t acc)
  let ?s1 = "clean_empty_orders s"
  show ?case
  proof (cases "0 < remaining_quantity (store s t) \<and> buy_orders s \<noteq> []")
    case False
    then have "sweep False SELL s t = s" by (intro sweep_stop) (simp add: opp_queue_def)
    with False show ?thesis
      by (subst market_sell_loop.simps) auto
  next
    case True
    show ?thesis
    proof (cases "clean_queue (store s) (buy_orders s)")
      case Nil
      with True have "sweep False SELL s t = clean_empty_orders s"
        by (intro sweep_empty) (simp_all add: opp_queue_def)
      with True Nil show ?thesis
        by (subst market_sell_loop.simps) auto
    next
      case (Cons m r)
      then have act: "0 < remaining_quantity (store s m)" by (rule clean_queue_top_active)
      have c: "clean_queue (store s) (opp_queue SELL s) = m # r" using Cons by (simp add: opp_queue_def)
      have ns: "\<not> stops False SELL (store s t) (store s m)" by (simp add: stops_def)
      have l: "last (trades (fill_sell ?s1 t m)) = fill_trade SELL s t m"
        using trades_fill [of SELL ?s1 t m] by (simp add: fill_def)
      have "market_sell_loop s t acc =
            market_sell_loop (fill_sell ?s1 t m) t (acc @ [last (trades (fill_sell ?s1 t m))])"
        using True Cons act by (subst market_sell_loop.simps) (simp add: Let_def)
      also have "\<dots> = (sweep False SELL (fill_sell ?s1 t m) t,
           (acc @ [fill_trade SELL s t m]) @ new_trades (fill_sell ?s1 t m) (sweep False SELL (fill_sell ?s1 t m) t))"
        using "1.IH"(2) [of ?s1 m r] True Cons act by (simp add: l)
      finally show ?thesis
        using new_trades_sweep_unfold [OF _ c ns] True by (simp add: fill_def)
    qed
  qed
qed

lemma evolves_static: "evolves s s' \<Longrightarrow> static (store s' p) = static (store s p)"
  by (simp add: evolves_def)

lemma evolves_remaining: "evolves s s' \<Longrightarrow> remaining_quantity (store s' p) \<le> remaining_quantity (store s p)"
  by (simp add: evolves_def)

lemma evolves_fields:
  assumes "evolves s s'"
  shows "id_o (store s' p) = id_o (store s p)" "price (store s' p) = price (store s p)"
    "timestamp (store s' p) = timestamp (store s p)" "quantity (store s' p) = quantity (store s p)"
    "type_o (store s' p) = type_o (store s p)" "side (store s' p) = side (store s p)"
  using static_fields [OF evolves_static [OF assms, of p]] by simp_all

lemma evolves_active: "evolves s s' \<Longrightarrow> active (store s') p \<Longrightarrow> active (store s) p"
  using evolves_remaining [of s s' p] by (simp add: active_def)

lemma evolves_queues:
  assumes "evolves s s'"
  shows "set (buy_orders s') \<subseteq> set (buy_orders s)" "set (sell_orders s') \<subseteq> set (sell_orders s)"
    "set (opp_queue sd s') \<subseteq> set (opp_queue sd s)" "set (own_queue sd s') \<subseteq> set (own_queue sd s)"
  using assms by (cases sd; auto simp: evolves_def opp_queue_def own_queue_def dest: set_mono_suffix)+

lemma made_by_evolves:
  assumes "evolves s s'" and "made_by sd s' t tr"
  shows "made_by sd s t tr"
proof -
  from assms(2) obtain m where m: "m \<in> set (opp_queue sd s')" "active (store s') m"
    "maker_id sd tr = id_o (store s' m)" "price_t tr = price (store s' m)"
    "0 < quantity_t tr" "quantity_t tr \<le> remaining_quantity (store s' m)"
    and t: "taker_id sd tr = id_o (store s' t)"
    by (auto simp: made_by_def)
  have "m \<in> set (opp_queue sd s)" using m(1) evolves_queues(3) [OF assms(1)] by auto
  moreover have "active (store s) m" using m(2) assms(1) by (rule evolves_active [rotated])
  moreover have "quantity_t tr \<le> remaining_quantity (store s m)"
    using m(6) evolves_remaining [OF assms(1), of m] by simp
  ultimately show ?thesis
    using m t by (auto simp: made_by_def evolves_fields [OF assms(1)])
qed

lemma sweep_made_by:
  "\<forall>tr \<in> set (new_trades s (sweep lmt sd s t)). made_by sd s t tr"
proof (induction rule: sweep_rule)
  case (fill s m r s')
  let ?c = "clean_empty_orders s"
  let ?f = "fill sd ?c t m"
  have ev: "evolves s ?f" by (rule evolves_trans [OF evolves_clean evolves_fill])
  have "prefix (trades ?f) (trades s')" using fill(5) evolves_sweep by (simp add: evolves_def)
  then have nt: "new_trades s s' = fill_trade sd s t m # new_trades ?f s'"
    using new_trades_fill [of sd ?c t m s'] by simp
  have "m \<in> set (opp_queue sd s)"
    using fill(2) set_mono_suffix [OF clean_queue_suffix, of "store s" "opp_queue sd s"] by auto
  with fill(1,3) have "made_by sd s t (fill_trade sd s t m)"
    by (auto simp: made_by_def active_def)
  moreover have "\<forall>tr \<in> set (new_trades ?f s'). made_by sd s t tr"
    using fill(6) made_by_evolves [OF ev] by blast
  ultimately show ?case by (simp add: nt)
qed simp_all

lemma traded_append [simp]: "traded (xs @ ys) i = traded xs i + traded ys i"
  by (simp add: traded_def)

lemma traded_Nil [simp]: "traded [] i = 0"
  by (simp add: traded_def)

lemma fill_conserves:
  assumes "t \<noteq> m" and "id_o (store s t) = t" and "id_o (store s m) = m"
  shows "traded (trades (fill sd s t m)) p + remaining_quantity (store (fill sd s t m) p) =
         traded (trades s) p + remaining_quantity (store s p)"
  using assms
  by (cases sd) (auto simp: fill_def fill_buy_def fill_sell_def Let_def traded_def new_trade_def)

lemma clean_queue_subset: "set (clean_queue h q) \<subseteq> set q"
  using set_mono_suffix [OF clean_queue_suffix] .

lemma sweep_conserves:
  assumes "t \<notin> set (opp_queue sd s)" and "id_o (store s t) = t"
    and "\<forall>m \<in> set (opp_queue sd s). id_o (store s m) = m"
  shows "traded (trades (sweep lmt sd s t)) p + remaining_quantity (store (sweep lmt sd s t) p) =
         traded (trades s) p + remaining_quantity (store s p)"
  using assms
proof (induction rule: sweep_rule)
  case (fill s m r s')
  let ?c = "clean_empty_orders s"
  let ?f = "fill sd ?c t m"
  have ev: "evolves s ?f" by (rule evolves_trans [OF evolves_clean evolves_fill])
  have m: "m \<in> set (opp_queue sd s)" using fill(2) clean_queue_subset [of "store s" "opp_queue sd s"] by auto
  with fill have tm: "t \<noteq> m" and idm: "id_o (store s m) = m" by auto
  have "traded (trades s') p + remaining_quantity (store s' p) =
        traded (trades ?f) p + remaining_quantity (store ?f p)"
  proof (rule fill(6))
    show "t \<notin> set (opp_queue sd ?f)" using fill(7) evolves_queues(3) [OF ev, of sd] by auto
    show "id_o (store ?f t) = t" using fill(8) by (simp add: evolves_fields [OF ev])
    show "\<forall>m\<in>set (opp_queue sd ?f). id_o (store ?f m) = m"
      using fill(9) evolves_queues(3) [OF ev, of sd] by (auto simp: evolves_fields [OF ev])
  qed
  also have "\<dots> = traded (trades ?c) p + remaining_quantity (store ?c p)"
    using tm idm fill(8) by (intro fill_conserves) simp_all
  finally show ?case by simp
qed simp_all

lemma filter_active_clean_queue:
  "filter (active h) (clean_queue h q) = filter (active h) q"
  by (induction q) (simp_all add: active_def)

lemma fill_store_other:
  "p \<noteq> t \<Longrightarrow> p \<noteq> m \<Longrightarrow> store (fill sd s t m) p = store s p"
  by (cases sd) (simp_all add: fill_def fill_buy_def fill_sell_def Let_def)

lemma fill_exhausts:
  assumes "t \<noteq> m" and "0 < remaining_quantity (store (fill sd s t m) m)"
  shows "remaining_quantity (store (fill sd s t m) t) = 0"
  using assms
  by (cases sd) (auto simp: fill_def fill_buy_def fill_sell_def Let_def split: if_splits)


section \<open>The operations that construct an order, step by step\<close>

lemma add_limit_order_eq:
  "add_limit_order s sd p q now =
     (let t = next_order_id s;
          s3 = rest sd (sweep True sd (placed s (new_order t sd LIMIT p q now) True) t) t
      in (id_o (store s3 t), s3))"
  by (cases sd)
     (simp_all add: add_limit_order_def placed_def rest_def Let_def
        match_buy_order_sweep match_sell_order_sweep new_order_def)

lemma add_market_order_eq:
  "add_market_order s sd q now =
     (let t = next_order_id s;
          s1 = placed s (new_order t sd MARKET 0 q now) False;
          s2 = sweep False sd s1 t
      in (new_trades s s2, s2))"
  by (cases sd)
     (simp_all add: add_market_order_def placed_def Let_def new_trades_def
        market_buy_loop_sweep market_sell_loop_sweep)

section \<open>What holds of every book\<close>

lemma set_pq_push [simp]: "set (pq_push cmp h x q) = insert x (set q)"
  by (induction q) auto

lemma distinct_pq_push: "x \<notin> set q \<Longrightarrow> distinct q \<Longrightarrow> distinct (pq_push cmp h x q)"
  by (induction q) auto

lemma ranked_pq_push:
  assumes asym: "\<And>a b. cmp a b \<Longrightarrow> \<not> cmp b a"
    and trans: "\<And>a b c. cmp a b \<Longrightarrow> cmp b c \<Longrightarrow> cmp a c"
    and "ranked cmp h q"
  shows "ranked cmp h (pq_push cmp h x q)"
  using assms(3)
proof (induction q)
  case Nil
  then show ?case by (simp add: ranked_def)
next
  case (Cons y q)
  show ?case
  proof (cases "cmp (h y) (h x)")
    case True
    have "\<not> cmp (h x) (h z)" if "z \<in> set (y # q)" for z
    proof
      assume c: "cmp (h x) (h z)"
      from trans [OF True c] have "cmp (h y) (h z)" .
      with that Cons.prems True asym [of "h y" "h x"] c show False
        by (auto simp: ranked_def)
    qed
    with True Cons.prems show ?thesis by (simp add: ranked_def)
  next
    case False
    with Cons show ?thesis by (auto simp: ranked_def)
  qed
qed

lemma BuyOrderComparator_asym: "BuyOrderComparator a b \<Longrightarrow> \<not> BuyOrderComparator b a"
  by (auto simp: BuyOrderComparator_def split: if_splits)

lemma BuyOrderComparator_trans:
  "BuyOrderComparator a b \<Longrightarrow> BuyOrderComparator b c \<Longrightarrow> BuyOrderComparator a c"
  by (auto simp: BuyOrderComparator_def split: if_splits)

lemma SellOrderComparator_asym: "SellOrderComparator a b \<Longrightarrow> \<not> SellOrderComparator b a"
  by (auto simp: SellOrderComparator_def split: if_splits)

lemma SellOrderComparator_trans:
  "SellOrderComparator a b \<Longrightarrow> SellOrderComparator b c \<Longrightarrow> SellOrderComparator a c"
  by (auto simp: SellOrderComparator_def split: if_splits)

lemma comparators_static:
  assumes "static a' = static a" and "static b' = static b"
  shows "BuyOrderComparator a' b' = BuyOrderComparator a b"
    and "SellOrderComparator a' b' = SellOrderComparator a b"
  using static_fields(4,6) [OF assms(1)] static_fields(4,6) [OF assms(2)]
  by (simp_all add: BuyOrderComparator_def SellOrderComparator_def)

lemma ranked_suffix: "ranked cmp h q \<Longrightarrow> suffix q' q \<Longrightarrow> ranked cmp h q'"
  by (auto simp: ranked_def suffix_def sorted_wrt_append)

lemma ranked_cong:
  assumes "\<And>x y. x \<in> set q \<Longrightarrow> y \<in> set q \<Longrightarrow> cmp (h' x) (h' y) = cmp (h x) (h y)"
  shows "ranked cmp h' q = ranked cmp h q"
  using assms by (induction q) (auto simp: ranked_def)

lemma addresses_ok_evolves:
  assumes "addresses_ok s" and "evolves s s'"
  shows "addresses_ok s'"
proof -
  have n: "next_order_id s' = next_order_id s" using assms(2) by (simp add: evolves_def)
  have om: "order_map s i = Some p" if "order_map s' i = Some p" for i p
    using that assms(2) by (auto simp: evolves_def map_le_def dom_def)
  show ?thesis
    using assms(1) evolves_queues(1,2) [OF assms(2)] om
    by (auto simp: addresses_ok_def n evolves_fields [OF assms(2)])
qed

lemma resting_ok_evolves:
  assumes "resting_ok s" and "evolves s s'"
  shows "resting_ok s'"
proof -
  have "distinct (buy_orders s')" "distinct (sell_orders s')"
    using assms by (auto simp: resting_ok_def evolves_def suffix_def)
  then show ?thesis
    using assms(1) evolves_queues(1,2) [OF assms(2)]
    by (auto simp: resting_ok_def evolves_fields [OF assms(2)])
qed

lemma ranked_ok_evolves:
  assumes "ranked_ok s" and "evolves s s'"
  shows "ranked_ok s'"
proof -
  have "ranked BuyOrderComparator (store s') (buy_orders s') =
        ranked BuyOrderComparator (store s) (buy_orders s')"
    by (rule ranked_cong) (rule comparators_static; rule evolves_static [OF assms(2)])
  moreover have "ranked SellOrderComparator (store s') (sell_orders s') =
        ranked SellOrderComparator (store s) (sell_orders s')"
    by (rule ranked_cong) (rule comparators_static; rule evolves_static [OF assms(2)])
  ultimately show ?thesis
    using assms by (auto simp: ranked_ok_def evolves_def intro: ranked_suffix)
qed

lemma uncrossed_evolves:
  assumes "uncrossed s" and "evolves s s'"
  shows "uncrossed s'"
  unfolding uncrossed_def
proof (intro ballI impI)
  fix b a
  assume "b \<in> set (buy_orders s')" "a \<in> set (sell_orders s')"
    and "active (store s') b" "active (store s') a"
  then have "b \<in> set (buy_orders s)" "a \<in> set (sell_orders s)"
    "active (store s) b" "active (store s) a"
    using evolves_queues(1,2) [OF assms(2)] evolves_active [OF assms(2)] by auto
  with assms(1) have "price (store s b) < price (store s a)" by (simp add: uncrossed_def)
  then show "price (store s' b) < price (store s' a)" by (simp add: evolves_fields [OF assms(2)])
qed

lemma placed_fields [simp]:
  "buy_orders (placed s x reg) = buy_orders s"
  "sell_orders (placed s x reg) = sell_orders s"
  "trades (placed s x reg) = trades s"
  "next_order_id (placed s x reg) = next_order_id s + 1"
  "store (placed s x reg) = (store s)(next_order_id s := x)"
  "order_map (placed s x reg) =
     (if reg then (order_map s)(id_o x \<mapsto> next_order_id s) else order_map s)"
  by (simp_all add: placed_def)

lemma opp_queue_placed [simp]: "opp_queue sd (placed s x reg) = opp_queue sd s"
  by (cases sd) (simp_all add: opp_queue_def)

lemma own_queue_placed [simp]: "own_queue sd (placed s x reg) = own_queue sd s"
  by (cases sd) (simp_all add: own_queue_def)

lemma new_trades_placed [simp]: "new_trades (placed s x reg) s' = new_trades s s'"
  by (simp add: new_trades_def)

lemma addresses_ok_fresh:
  assumes "addresses_ok s"
  shows "next_order_id s \<notin> set (buy_orders s)" "next_order_id s \<notin> set (sell_orders s)"
    "next_order_id s \<notin> set (opp_queue sd s)" "next_order_id s \<notin> set (own_queue sd s)"
    "order_map s (next_order_id s) = None"
proof -
  show b: "next_order_id s \<notin> set (buy_orders s)" and a: "next_order_id s \<notin> set (sell_orders s)"
    using assms by (auto simp: addresses_ok_def)
  show "next_order_id s \<notin> set (opp_queue sd s)" "next_order_id s \<notin> set (own_queue sd s)"
    using a b by (cases sd; simp add: opp_queue_def own_queue_def)+
  show "order_map s (next_order_id s) = None"
    using assms by (cases "order_map s (next_order_id s)") (auto simp: addresses_ok_def)
qed

lemma addresses_ok_placed:
  "addresses_ok s \<Longrightarrow> id_o x = next_order_id s \<Longrightarrow> addresses_ok (placed s x reg)"
  by (auto simp: addresses_ok_def less_Suc_eq)

lemma resting_ok_placed:
  "addresses_ok s \<Longrightarrow> resting_ok s \<Longrightarrow> resting_ok (placed s x reg)"
  using addresses_ok_fresh(1,2) [of s] by (auto simp: resting_ok_def)

lemma ranked_ok_placed:
  assumes "addresses_ok s" and "ranked_ok s"
  shows "ranked_ok (placed s x reg)"
proof -
  have "ranked BuyOrderComparator (store (placed s x reg)) (buy_orders s) =
        ranked BuyOrderComparator (store s) (buy_orders s)"
    using addresses_ok_fresh(1) [OF assms(1)] by (intro ranked_cong) auto
  moreover have "ranked SellOrderComparator (store (placed s x reg)) (sell_orders s) =
        ranked SellOrderComparator (store s) (sell_orders s)"
    using addresses_ok_fresh(2) [OF assms(1)] by (intro ranked_cong) auto
  ultimately show ?thesis using assms(2) by (simp add: ranked_ok_def)
qed

lemma uncrossed_placed:
  "addresses_ok s \<Longrightarrow> uncrossed s \<Longrightarrow> uncrossed (placed s x reg)"
  using addresses_ok_fresh(1,2) [of s] by (auto simp: uncrossed_def active_def)

lemma traded_unknown:
  "\<forall>tr \<in> set ts. buyer_id tr \<noteq> i \<and> seller_id tr \<noteq> i \<Longrightarrow> traded ts i = 0"
  by (induction ts) (auto simp: traded_def)

lemma fills_ok_placed:
  assumes "fills_ok s" and "remaining_quantity x \<le> quantity x"
  shows "fills_ok (placed s x reg)"
proof -
  have "traded (trades s) (next_order_id s) = 0"
    using assms(1) by (intro traded_unknown) (auto simp: fills_ok_def)
  with assms show ?thesis by (auto simp: fills_ok_def less_Suc_eq)
qed

lemma fills_ok_sweep:
  assumes "addresses_ok s" and "fills_ok s"
    and t: "0 < t" "t < next_order_id s" "t \<notin> set (opp_queue sd s)"
  shows "fills_ok (sweep lmt sd s t)"
proof -
  let ?s' = "sweep lmt sd s t"
  have ev: "evolves s ?s'" by (rule evolves_sweep)
  have opp: "0 < m \<and> m < next_order_id s" if "m \<in> set (opp_queue sd s)" for m
    using that assms(1) by (cases sd) (auto simp: addresses_ok_def opp_queue_def)
  have ids: "id_o (store s p) = p" if "0 < p" "p < next_order_id s" for p
    using that assms(1) by (simp add: addresses_ok_def)
  have "buyer_id tr < next_order_id s \<and> seller_id tr < next_order_id s"
    if "tr \<in> set (new_trades s ?s')" for tr
  proof -
    from that sweep_made_by have "made_by sd s t tr" by blast
    then obtain m where "m \<in> set (opp_queue sd s)" "taker_id sd tr = id_o (store s t)"
      "maker_id sd tr = id_o (store s m)"
      by (auto simp: made_by_def)
    with opp [of m] ids [of m] ids [of t] t show ?thesis
      by (cases sd) (auto simp: taker_id_def maker_id_def)
  qed
  then have ids': "\<forall>tr \<in> set (trades ?s'). buyer_id tr < next_order_id ?s' \<and> seller_id tr < next_order_id ?s'"
    using assms(2) evolves_trades [OF ev] ev by (auto simp: fills_ok_def evolves_def)
  have "traded (trades ?s') p + remaining_quantity (store ?s' p) \<le> quantity (store ?s' p)" for p
  proof -
    have "traded (trades ?s') p + remaining_quantity (store ?s' p) =
      traded (trades s) p + remaining_quantity (store s p)"
      using t opp ids by (intro sweep_conserves) auto
    also have "\<dots> \<le> quantity (store s p)" using assms(2) by (simp add: fills_ok_def)
    finally show ?thesis by (simp add: evolves_fields [OF ev])
  qed
  with ids' show ?thesis by (simp add: fills_ok_def)
qed

lemma fills_ok_cancel:
  assumes "fills_ok s"
  shows "fills_ok (snd (cancel_order s i))"
proof -
  have "traded (trades s) p \<le> quantity (store s p)" for p
    using assms by (auto simp: fills_ok_def intro: le_trans [rotated])
  with assms show ?thesis
    by (auto simp: fills_ok_def cancel_order_def split: option.splits)
qed

lemma rest_fields [simp]:
  "store (rest sd s t) = store s"
  "trades (rest sd s t) = trades s"
  "order_map (rest sd s t) = order_map s"
  "next_order_id (rest sd s t) = next_order_id s"
  by (cases sd; simp add: rest_def)+

lemma rest_queues:
  "opp_queue sd (rest sd s t) = opp_queue sd s"
  "set (own_queue sd (rest sd s t)) =
     (if 0 < remaining_quantity (store s t) then insert t (set (own_queue sd s))
      else set (own_queue sd s))"
  by (cases sd; simp add: rest_def opp_queue_def own_queue_def)+

lemma addresses_ok_rest:
  "addresses_ok s \<Longrightarrow> 0 < t \<Longrightarrow> t < next_order_id s \<Longrightarrow> addresses_ok (rest sd s t)"
  by (cases sd) (auto simp: addresses_ok_def rest_def)

lemma resting_ok_rest:
  assumes "resting_ok s" and "t \<notin> set (buy_orders s)" and "t \<notin> set (sell_orders s)"
    and "type_o (store s t) = LIMIT" and "side (store s t) = sd"
  shows "resting_ok (rest sd s t)"
  using assms by (cases sd) (auto simp: resting_ok_def rest_def distinct_pq_push)

lemma ranked_push_buy:
  assumes "ranked BuyOrderComparator h q"
  shows "ranked BuyOrderComparator h (pq_push BuyOrderComparator h x q)"
proof (rule ranked_pq_push)
  show "\<not> BuyOrderComparator b a" if "BuyOrderComparator a b" for a b
    using that by (rule BuyOrderComparator_asym)
  show "BuyOrderComparator a c" if "BuyOrderComparator a b" "BuyOrderComparator b c" for a b c
    using that by (rule BuyOrderComparator_trans)
qed (rule assms)

lemma ranked_push_sell:
  assumes "ranked SellOrderComparator h q"
  shows "ranked SellOrderComparator h (pq_push SellOrderComparator h x q)"
proof (rule ranked_pq_push)
  show "\<not> SellOrderComparator b a" if "SellOrderComparator a b" for a b
    using that by (rule SellOrderComparator_asym)
  show "SellOrderComparator a c" if "SellOrderComparator a b" "SellOrderComparator b c" for a b c
    using that by (rule SellOrderComparator_trans)
qed (rule assms)

lemma ranked_ok_rest: "ranked_ok s \<Longrightarrow> ranked_ok (rest sd s t)"
  by (cases sd) (simp_all add: ranked_ok_def rest_def ranked_push_buy ranked_push_sell)

lemma fills_ok_rest: "fills_ok s \<Longrightarrow> fills_ok (rest sd s t)"
  by (simp add: fills_ok_def)

lemma ranked_sell_top:
  "ranked SellOrderComparator h (m # r) \<Longrightarrow> a \<in> set (m # r) \<Longrightarrow> price (h m) \<le> price (h a)"
  by (auto simp: ranked_def SellOrderComparator_def split: if_splits)

lemma ranked_buy_top:
  "ranked BuyOrderComparator h (m # r) \<Longrightarrow> b \<in> set (m # r) \<Longrightarrow> price (h b) \<le> price (h m)"
  by (auto simp: ranked_def BuyOrderComparator_def split: if_splits)

lemma uncrossed_rest:
  assumes "uncrossed s" and "ranked_ok s"
    and exit: "remaining_quantity (store s t) = 0 \<or> opp_queue sd s = [] \<or>
      (\<exists>m r. opp_queue sd s = m # r \<and> stops True sd (store s t) (store s m))"
  shows "uncrossed (rest sd s t)"
proof (cases "0 < remaining_quantity (store s t)")
  case False
  with assms(1) show ?thesis by (simp add: rest_def)
next
  case True
  show ?thesis
  proof (cases sd)
    case BUY
    have "price (store s t) < price (store s a)" if "a \<in> set (sell_orders s)" for a
    proof -
      from exit True BUY that obtain m r where mr: "sell_orders s = m # r"
        and "price (store s t) < price (store s m)"
        by (auto simp: opp_queue_def stops_def)
      moreover have "price (store s m) \<le> price (store s a)"
        using ranked_sell_top [of "store s" m r a] assms(2) that mr by (simp add: ranked_ok_def)
      ultimately show ?thesis by simp
    qed
    with assms(1) True BUY show ?thesis by (auto simp: uncrossed_def rest_def)
  next
    case SELL
    have "price (store s b) < price (store s t)" if "b \<in> set (buy_orders s)" for b
    proof -
      from exit True SELL that obtain m r where mr: "buy_orders s = m # r"
        and "price (store s m) < price (store s t)"
        by (auto simp: opp_queue_def stops_def)
      moreover have "price (store s b) \<le> price (store s m)"
        using ranked_buy_top [of "store s" m r b] assms(2) that mr by (simp add: ranked_ok_def)
      ultimately show ?thesis by simp
    qed
    with assms(1) True SELL show ?thesis by (auto simp: uncrossed_def rest_def)
  qed
qed

lemma wf_book_evolves:
  assumes "wf_book s" and "evolves s s'" and "fills_ok s'"
  shows "wf_book s'"
  using assms
  by (simp add: wf_book_def addresses_ok_evolves [of s] resting_ok_evolves [of s]
      ranked_ok_evolves [of s] uncrossed_evolves [of s])

lemma wf_book_placed:
  assumes "wf_book s" and "id_o x = next_order_id s" and "remaining_quantity x \<le> quantity x"
  shows "wf_book (placed s x reg)"
  using assms
  by (simp add: wf_book_def addresses_ok_placed resting_ok_placed ranked_ok_placed
      uncrossed_placed fills_ok_placed)

lemma wf_book_sweep_placed:
  assumes "wf_book s" and "id_o x = next_order_id s" and "remaining_quantity x \<le> quantity x"
  shows "wf_book (sweep lmt sd (placed s x reg) (next_order_id s))"
proof -
  let ?p = "placed s x reg"
  have wp: "wf_book ?p" using assms by (rule wf_book_placed)
  have "0 < next_order_id s" using assms(1) by (simp add: wf_book_def addresses_ok_def)
  moreover have "next_order_id s \<notin> set (opp_queue sd ?p)"
    using addresses_ok_fresh(3) [of s sd] assms(1) by (simp add: wf_book_def)
  ultimately have "fills_ok (sweep lmt sd ?p (next_order_id s))"
    using wp by (intro fills_ok_sweep) (simp_all add: wf_book_def)
  with wp evolves_sweep show ?thesis by (rule wf_book_evolves)
qed

lemma wf_book_add_limit_order:
  assumes "wf_book s"
  shows "wf_book (snd (add_limit_order s sd p q now))"
proof -
  let ?t = "next_order_id s"
  let ?x = "new_order ?t sd LIMIT p q now"
  let ?p = "placed s ?x True"
  let ?w = "sweep True sd ?p ?t"
  have ev: "evolves ?p ?w" by (rule evolves_sweep)
  have w: "wf_book ?w"
    using assms by (intro wf_book_sweep_placed) (simp_all add: new_order_def)
  have pos: "0 < ?t" using assms by (simp add: wf_book_def addresses_ok_def)
  have fresh: "?t \<notin> set (buy_orders ?w)" "?t \<notin> set (sell_orders ?w)"
    using evolves_queues(1,2) [OF ev] addresses_ok_fresh(1,2) [of s] assms
    by (auto simp: wf_book_def)
  have x: "type_o (store ?w ?t) = LIMIT" "side (store ?w ?t) = sd"
    using evolves_fields(5,6) [OF ev, of ?t] by (simp_all add: new_order_def)
  have n: "next_order_id ?w = ?t + 1" using ev by (simp add: evolves_def)
  have exit: "remaining_quantity (store ?w ?t) = 0 \<or> opp_queue sd ?w = [] \<or>
      (\<exists>m r. opp_queue sd ?w = m # r \<and> stops True sd (store ?w ?t) (store ?w m))"
    using sweep_exit [of True sd ?p ?t] by blast
  have "wf_book (rest sd ?w ?t)"
    using w pos fresh x n exit
    by (simp add: wf_book_def addresses_ok_rest resting_ok_rest ranked_ok_rest
        uncrossed_rest fills_ok_rest)
  then show ?thesis by (simp add: add_limit_order_eq Let_def)
qed

lemma wf_book_add_market_order:
  assumes "wf_book s"
  shows "wf_book (snd (add_market_order s sd q now))"
  using wf_book_sweep_placed [OF assms, of "new_order (next_order_id s) sd MARKET 0 q now" False sd False]
  by (simp add: add_market_order_eq Let_def new_order_def)

lemma wf_book_cancel_order:
  assumes "wf_book s"
  shows "wf_book (snd (cancel_order s i))"
  using assms evolves_cancel
proof (rule wf_book_evolves)
  show "fills_ok (snd (cancel_order s i))"
    using assms by (intro fills_ok_cancel) (simp add: wf_book_def)
qed

lemma wf_book_init: "wf_book init_book"
  by (simp add: wf_book_def init_book_def addresses_ok_def resting_ok_def ranked_ok_def
      ranked_def uncrossed_def fills_ok_def new_order_def)

lemma wf_book_apply_op: "wf_book s \<Longrightarrow> wf_book (apply_op s op)"
  by (cases op)
     (simp_all add: wf_book_add_limit_order wf_book_add_market_order wf_book_cancel_order)

lemma run_snoc: "run (ops @ [op]) = apply_op (run ops) op"
  by (simp add: run_def)

lemma wf_book_run: "wf_book (run ops)"
  by (induction ops rule: rev_induct) (simp_all add: run_snoc wf_book_apply_op, simp add: run_def wf_book_init)

section \<open>The scenario of the demo driver\<close>

lemmas loop_simps = match_buy_order.simps match_sell_order.simps
  market_buy_loop.simps market_sell_loop.simps

lemmas op_defs = init_book_def add_limit_order_def add_market_order_def cancel_order_def
  new_order_def new_trade_def fill_buy_def fill_sell_def clean_empty_orders_def
  BuyOrderComparator_def SellOrderComparator_def get_best_bid_def get_best_ask_def Let_def

lemma scenario_1_queues:
  "buy_orders (run (scenario_1 t1 t2 t3 t4 t5 t6 t7)) = [3, 1, 2]"
  "sell_orders (run (scenario_1 t1 t2 t3 t4 t5 t6 t7)) = [4, 5]"
  by (simp_all add: scenario_1_def run_def loop_simps op_defs)

lemma scenario_1_trades:
  "trades (run (scenario_1 t1 t2 t3 t4 t5 t6 t7)) =
     [new_trade 7 6 100.90 75, new_trade 7 4 101.00 125]"
  by (simp add: scenario_1_def run_def loop_simps op_defs)

lemma scenario_1_remaining:
  "map (\<lambda>i. remaining_quantity (store (run (scenario_1 t1 t2 t3 t4 t5 t6 t7)) i)) [1, 2, 3, 4, 5, 6, 7] =
     [100, 200, 50, 25, 100, 0, 0]"
  by (simp add: scenario_1_def run_def loop_simps op_defs)

lemma scenario_1_ids:
  "limit_ids init_book (scenario_1 t1 t2 t3 t4 t5 t6 t7) = [1, 2, 3, 4, 5, 6, 7]"
  by (simp add: scenario_1_def run_def loop_simps op_defs)

lemma scenario_1_best_bid:
  "get_best_bid (run (scenario_1 t1 t2 t3 t4 t5 t6 t7)) = 100.75"
  by (simp add: scenario_1_def run_def loop_simps op_defs)

lemma scenario_1_before:
  "trades (run (butlast (scenario_1 t1 t2 t3 t4 t5 t6 t7))) = []"
  by (simp add: scenario_1_def run_def loop_simps op_defs)

text \<open>
  C4. On a fresh engine the six limit orders Buy 100 at 100.50, Buy 200 at 100.25, Buy 50
  at 100.75, Sell 150 at 101.00, Sell 100 at 101.25 and Sell 75 at 100.90 get the ids 1
  to 6 and trade nothing; Buy 200 at 101.10 then gets id 7 and produces exactly the trades
  (buyer 7, seller 6, price 100.90, quantity 75) and (buyer 7, seller 4, price 101.00,
  quantity 125), in this order. Afterwards order 7 has nothing remaining and is on no
  queue, order 4 has 25 remaining, and the best bid is 100.75. This holds whatever the
  clock reads.
\<close>

theorem scenario_1_outcome:
  "limit_ids init_book (scenario_1 t1 t2 t3 t4 t5 t6 t7) = [1, 2, 3, 4, 5, 6, 7] \<and>
   trades (run (butlast (scenario_1 t1 t2 t3 t4 t5 t6 t7))) = [] \<and>
   trades (run (scenario_1 t1 t2 t3 t4 t5 t6 t7)) =
     [\<lparr>buyer_id = 7, seller_id = 6, price_t = 100.90, quantity_t = 75\<rparr>,
      \<lparr>buyer_id = 7, seller_id = 4, price_t = 101.00, quantity_t = 125\<rparr>] \<and>
   remaining_quantity (store (run (scenario_1 t1 t2 t3 t4 t5 t6 t7)) 7) = 0 \<and>
   7 \<notin> set (buy_orders (run (scenario_1 t1 t2 t3 t4 t5 t6 t7))) \<and>
   7 \<notin> set (sell_orders (run (scenario_1 t1 t2 t3 t4 t5 t6 t7))) \<and>
   remaining_quantity (store (run (scenario_1 t1 t2 t3 t4 t5 t6 t7)) 4) = 25 \<and>
   get_best_bid (run (scenario_1 t1 t2 t3 t4 t5 t6 t7)) = 100.75"
  using scenario_1_remaining [of t1 t2 t3 t4 t5 t6 t7]
  by (simp add: scenario_1_ids scenario_1_before scenario_1_trades scenario_1_queues
      scenario_1_best_bid new_trade_def)

section \<open>The price of a trade\<close>

lemma add_limit_order_id: "fst (add_limit_order s sd p q now) = next_order_id s"
proof -
  let ?t = "next_order_id s"
  let ?p = "placed s (new_order ?t sd LIMIT p q now) True"
  have "evolves ?p (sweep True sd ?p ?t)" by (rule evolves_sweep)
  from evolves_fields(1) [OF this, of ?t] show ?thesis
    by (simp add: add_limit_order_eq Let_def new_order_def)
qed

lemma add_limit_order_trades:
  "new_trades s (snd (add_limit_order s sd p q now)) =
     new_trades s (sweep True sd (placed s (new_order (next_order_id s) sd LIMIT p q now) True)
       (next_order_id s))"
  by (simp add: add_limit_order_eq Let_def new_trades_def)

lemma opp_queue_types:
  assumes "resting_ok s" and "m \<in> set (opp_queue sd s)"
  shows "type_o (store s m) = LIMIT"
  using assms by (cases sd) (auto simp: resting_ok_def opp_queue_def)

lemma opp_queue_addresses:
  assumes "addresses_ok s" and "m \<in> set (opp_queue sd s)"
  shows "0 < m" "m < next_order_id s" "id_o (store s m) = m"
  using assms by (cases sd; auto simp: addresses_ok_def opp_queue_def)+

lemma maker_priced_sweep_placed:
  assumes "wf_book s" and "id_o x = next_order_id s"
    and "tr \<in> set (new_trades s (sweep lmt sd (placed s x reg) (next_order_id s)))"
  shows "maker_priced sd s (next_order_id s) p tr"
proof -
  let ?t = "next_order_id s"
  let ?p = "placed s x reg"
  from assms(3) sweep_made_by [of ?p lmt sd ?t] have "made_by sd ?p ?t tr" by simp
  then obtain m where m: "m \<in> set (opp_queue sd s)" "active (store ?p) m"
    "maker_id sd tr = id_o (store ?p m)" "price_t tr = price (store ?p m)"
    and t: "taker_id sd tr = id_o (store ?p ?t)"
    by (auto simp: made_by_def)
  from assms(1) have a: "addresses_ok s" and r: "resting_ok s" by (simp_all add: wf_book_def)
  from opp_queue_addresses [OF a m(1)] have ne: "m \<noteq> ?t" and idm: "id_o (store s m) = m" by auto
  with m t assms(2) opp_queue_types [OF r m(1)] show ?thesis
    by (simp add: maker_priced_def active_def)
qed

text \<open>
  C1. Every trade that \<open>add_limit_order\<close> or \<open>add_market_order\<close> appends to the trade
  log of a book reached by any sequence of operations carries the price of the resting
  order it was matched against, a limit order that was on the opposite queue with
  something remaining when the call began; the incoming order only appears as the id on
  its own side. For a market order the incoming price is the \<open>0.0\<close> of its constructor,
  which is not used either. \<open>cancel_order\<close> appends no trade.
\<close>

theorem trade_price_is_resting_price:
  "(\<forall>tr \<in> set (new_trades (run ops) (snd (add_limit_order (run ops) sd p q now))).
      maker_priced sd (run ops) (fst (add_limit_order (run ops) sd p q now)) p tr) \<and>
   (\<forall>tr \<in> set (new_trades (run ops) (snd (add_market_order (run ops) sd q now))).
      maker_priced sd (run ops) (next_order_id (run ops)) 0 tr) \<and>
   new_trades (run ops) (snd (cancel_order (run ops) i)) = []"
proof (intro conjI ballI)
  fix tr
  assume "tr \<in> set (new_trades (run ops) (snd (add_limit_order (run ops) sd p q now)))"
  then show "maker_priced sd (run ops) (fst (add_limit_order (run ops) sd p q now)) p tr"
    unfolding add_limit_order_id add_limit_order_trades
    by (intro maker_priced_sweep_placed wf_book_run) (simp_all add: new_order_def)
next
  fix tr
  assume "tr \<in> set (new_trades (run ops) (snd (add_market_order (run ops) sd q now)))"
  then show "maker_priced sd (run ops) (next_order_id (run ops)) 0 tr"
    by (intro maker_priced_sweep_placed [where x = "new_order (next_order_id (run ops)) sd MARKET 0 q now" and reg = False and lmt = False] wf_book_run)
       (simp_all add: add_market_order_eq Let_def new_order_def)
next
  show "new_trades (run ops) (snd (cancel_order (run ops) i)) = []"
    by (simp add: cancel_order_def new_trades_def split: option.splits)
qed

lemma scenario_1_last:
  "snd (add_limit_order (run (butlast (scenario_1 t1 t2 t3 t4 t5 t6 t7))) BUY 101.10 200 t7) =
   run (scenario_1 t1 t2 t3 t4 t5 t6 t7)"
  by (simp add: scenario_1_def run_def)

lemma scenario_1_new_trades:
  "new_trades (run (butlast (scenario_1 t1 t2 t3 t4 t5 t6 t7)))
     (snd (add_limit_order (run (butlast (scenario_1 t1 t2 t3 t4 t5 t6 t7))) BUY 101.10 200 t7)) =
   [new_trade 7 6 100.90 75, new_trade 7 4 101.00 125]"
  unfolding scenario_1_last new_trades_def scenario_1_before scenario_1_trades by simp

text \<open>
  Witness for C1: Buy 200 at 101.10 against the book of the first six orders of the
  scenario trades with order 6 at its price 100.90.
\<close>

theorem trade_price_is_resting_price_witness:
  "new_trade 7 6 100.90 75 \<in> set (new_trades (run (butlast (scenario_1 1 2 3 4 5 6 7)))
      (snd (add_limit_order (run (butlast (scenario_1 1 2 3 4 5 6 7))) BUY 101.10 200 7))) \<and>
   maker_priced BUY (run (butlast (scenario_1 1 2 3 4 5 6 7)))
      (fst (add_limit_order (run (butlast (scenario_1 1 2 3 4 5 6 7))) BUY 101.10 200 7)) 101.10
      (new_trade 7 6 100.90 75)"
proof -
  have mem: "new_trade 7 6 100.90 75 \<in> set (new_trades (run (butlast (scenario_1 1 2 3 4 5 6 7)))
      (snd (add_limit_order (run (butlast (scenario_1 1 2 3 4 5 6 7))) BUY 101.10 200 7)))"
    unfolding scenario_1_new_trades by simp
  with trade_price_is_resting_price [of "butlast (scenario_1 1 2 3 4 5 6 7)" BUY "101.10" 200 7]
  show ?thesis by blast
qed

section \<open>The book is never crossed\<close>

lemma best_price_loop_active:
  assumes "\<exists>p \<in> set q. active h p"
  shows "\<exists>p \<in> set q. active h p \<and> best_price_loop h q = price (h p)"
  using assms by (induction q) (auto simp: active_def)

lemma best_price_loop_none:
  "\<forall>p \<in> set q. \<not> active h p \<Longrightarrow> best_price_loop h q = 0"
  by (induction q) (auto simp: active_def)

text \<open>
  C2. After any sequence of \<open>add_limit_order\<close>, \<open>add_market_order\<close> and \<open>cancel_order\<close>
  on a fresh engine, if the buy queue and the sell queue each hold an order with
  something remaining, then \<open>get_best_bid\<close> is strictly below \<open>get_best_ask\<close>.
\<close>

theorem book_never_crossed:
  assumes "\<exists>b \<in> set (buy_orders (run ops)). 0 < remaining_quantity (store (run ops) b)"
    and "\<exists>a \<in> set (sell_orders (run ops)). 0 < remaining_quantity (store (run ops) a)"
  shows "get_best_bid (run ops) < get_best_ask (run ops)"
proof -
  let ?s = "run ops"
  from assms(1) obtain b where b: "b \<in> set (buy_orders ?s)" "active (store ?s) b"
    "get_best_bid ?s = price (store ?s b)"
    using best_price_loop_active [of "buy_orders ?s" "store ?s"]
    by (auto simp: get_best_bid_def active_def)
  from assms(2) obtain a where a: "a \<in> set (sell_orders ?s)" "active (store ?s) a"
    "get_best_ask ?s = price (store ?s a)"
    using best_price_loop_active [of "sell_orders ?s" "store ?s"]
    by (auto simp: get_best_ask_def active_def)
  have "uncrossed ?s" using wf_book_run [of ops] by (simp add: wf_book_def)
  with a b show ?thesis by (simp add: uncrossed_def)
qed

text \<open>Witness for C2: the book after the seven orders of the scenario.\<close>

theorem book_never_crossed_witness:
  "(\<exists>b \<in> set (buy_orders (run (scenario_1 1 2 3 4 5 6 7))).
      0 < remaining_quantity (store (run (scenario_1 1 2 3 4 5 6 7)) b)) \<and>
   (\<exists>a \<in> set (sell_orders (run (scenario_1 1 2 3 4 5 6 7))).
      0 < remaining_quantity (store (run (scenario_1 1 2 3 4 5 6 7)) a)) \<and>
   get_best_bid (run (scenario_1 1 2 3 4 5 6 7)) < get_best_ask (run (scenario_1 1 2 3 4 5 6 7))"
proof -
  have b: "\<exists>b \<in> set (buy_orders (run (scenario_1 1 2 3 4 5 6 7))).
      0 < remaining_quantity (store (run (scenario_1 1 2 3 4 5 6 7)) b)"
    using scenario_1_remaining [of 1 2 3 4 5 6 7] by (simp add: scenario_1_queues)
  have a: "\<exists>a \<in> set (sell_orders (run (scenario_1 1 2 3 4 5 6 7))).
      0 < remaining_quantity (store (run (scenario_1 1 2 3 4 5 6 7)) a)"
    using scenario_1_remaining [of 1 2 3 4 5 6 7] by (simp add: scenario_1_queues)
  from a b book_never_crossed [OF b a] show ?thesis by blast
qed

section \<open>Price-time priority\<close>

lemma BuyOrderComparator_outranks: "BuyOrderComparator b a \<longleftrightarrow> bid_outranks a b"
  by (auto simp: BuyOrderComparator_def bid_outranks_def)

lemma SellOrderComparator_outranks: "SellOrderComparator b a \<longleftrightarrow> ask_outranks a b"
  by (auto simp: SellOrderComparator_def ask_outranks_def)






section \<open>Remaining quantities\<close>

text \<open>
  The two decrements of the trade block take away exactly the quantity of the trade: the
  subtraction on \<open>nat\<close> does not stop at 0 here, as the \<open>uint32_t\<close> one does not wrap. The
  incoming order and the resting order are two orders on every reachable book, the
  incoming one being at a fresh address (\<open>addresses_ok_fresh\<close>).
\<close>

lemma fill_subtracts_exactly:
  assumes "t \<noteq> m"
  shows "remaining_quantity (store (fill sd s t m) t) + quantity_t (fill_trade sd s t m) =
           remaining_quantity (store s t)"
    and "remaining_quantity (store (fill sd s t m) m) + quantity_t (fill_trade sd s t m) =
           remaining_quantity (store s m)"
  using assms
  by (cases sd; simp add: fill_def fill_buy_def fill_sell_def Let_def)+

lemma placed_store_other:
  "i \<noteq> next_order_id s \<Longrightarrow> store (placed s x reg) i = store s i"
  by simp

lemma apply_op_store:
  assumes "i \<noteq> next_order_id s"
  shows "static (store (apply_op s op) i) = static (store s i)"
    and "remaining_quantity (store (apply_op s op) i) \<le> remaining_quantity (store s i)"
proof -
  have "static (store (apply_op s op) i) = static (store s i) \<and>
        remaining_quantity (store (apply_op s op) i) \<le> remaining_quantity (store s i)"
  proof (cases op)
    case (AddLimit sd p q now)
    let ?p = "placed s (new_order (next_order_id s) sd LIMIT p q now) True"
    have "evolves ?p (sweep True sd ?p (next_order_id s))" by (rule evolves_sweep)
    from evolves_static [OF this, of i] evolves_remaining [OF this, of i] assms AddLimit
    show ?thesis by (simp add: add_limit_order_eq Let_def)
  next
    case (AddMarket sd q now)
    let ?p = "placed s (new_order (next_order_id s) sd MARKET 0 q now) False"
    have "evolves ?p (sweep False sd ?p (next_order_id s))" by (rule evolves_sweep)
    from evolves_static [OF this, of i] evolves_remaining [OF this, of i] assms AddMarket
    show ?thesis by (simp add: add_market_order_eq Let_def)
  next
    case (Cancel j)
    from evolves_static [OF evolves_cancel, of s j i] evolves_remaining [OF evolves_cancel, of s j i]
    show ?thesis using Cancel by simp
  qed
  then show "static (store (apply_op s op) i) = static (store s i)"
    and "remaining_quantity (store (apply_op s op) i) \<le> remaining_quantity (store s i)"
    by simp_all
qed

lemma add_limit_order_quantity:
  "quantity (store (snd (add_limit_order s sd p q now)) (next_order_id s)) = q"
proof -
  let ?p = "placed s (new_order (next_order_id s) sd LIMIT p q now) True"
  have "evolves ?p (sweep True sd ?p (next_order_id s))" by (rule evolves_sweep)
  from evolves_fields(4) [OF this, of "next_order_id s"] show ?thesis
    by (simp add: add_limit_order_eq Let_def new_order_def)
qed

lemma add_market_order_quantity:
  "quantity (store (snd (add_market_order s sd q now)) (next_order_id s)) = q"
proof -
  let ?p = "placed s (new_order (next_order_id s) sd MARKET 0 q now) False"
  have "evolves ?p (sweep False sd ?p (next_order_id s))" by (rule evolves_sweep)
  from evolves_fields(4) [OF this, of "next_order_id s"] show ?thesis
    by (simp add: add_market_order_eq Let_def new_order_def)
qed

lemma next_order_id_apply_op: "next_order_id s \<le> next_order_id (apply_op s op)"
proof (cases op)
  case (AddLimit sd p q now)
  let ?p = "placed s (new_order (next_order_id s) sd LIMIT p q now) True"
  have "evolves ?p (sweep True sd ?p (next_order_id s))" by (rule evolves_sweep)
  then show ?thesis using AddLimit by (simp add: add_limit_order_eq Let_def evolves_def)
next
  case (AddMarket sd q now)
  let ?p = "placed s (new_order (next_order_id s) sd MARKET 0 q now) False"
  have "evolves ?p (sweep False sd ?p (next_order_id s))" by (rule evolves_sweep)
  then show ?thesis using AddMarket by (simp add: add_market_order_eq Let_def evolves_def)
next
  case (Cancel j)
  then show ?thesis by (simp add: cancel_order_def split: option.splits)
qed

lemma run_append: "run (ops @ ops') = foldl apply_op (run ops) ops'"
  by (simp add: run_def)

lemma foldl_apply_op_store:
  assumes "i < next_order_id s"
  shows "static (store (foldl apply_op s ops) i) = static (store s i) \<and>
         remaining_quantity (store (foldl apply_op s ops) i) \<le> remaining_quantity (store s i)"
  using assms
proof (induction ops arbitrary: s)
  case Nil
  then show ?case by simp
next
  case (Cons op ops)
  have "i < next_order_id (apply_op s op)"
    using Cons.prems next_order_id_apply_op [of s op] by simp
  from Cons.IH [OF this] apply_op_store [of i s op] Cons.prems show ?case by simp
qed

text \<open>
  C5. Take any order \<open>i\<close> the engine has created, after any sequence of operations. Its
  remaining quantity is at least 0 (it is a natural number) and at most its quantity,
  which is the quantity the order was submitted with and never changes. The quantities
  of all trades that name the order, added up, are at most its quantity, even together
  with what remains. And whatever operations follow, the remaining quantity of the order
  is never above what it is now.
\<close>

theorem remaining_within_quantity:
  assumes "0 < i" and "i < next_order_id (run ops)"
  shows "id_o (store (run ops) i) = i \<and>
         remaining_quantity (store (run ops) i) \<le> quantity (store (run ops) i) \<and>
         traded (trades (run ops)) i + remaining_quantity (store (run ops) i)
           \<le> quantity (store (run ops) i) \<and>
         traded (trades (run ops)) i \<le> quantity (store (run ops) i) \<and>
         remaining_quantity (store (run (ops @ ops')) i) \<le> remaining_quantity (store (run ops) i) \<and>
         quantity (store (run (ops @ ops')) i) = quantity (store (run ops) i) \<and>
         quantity (store (snd (add_limit_order (run ops) sd p q now))
           (fst (add_limit_order (run ops) sd p q now))) = q \<and>
         quantity (store (snd (add_market_order (run ops) sd q now)) (next_order_id (run ops))) = q"
proof -
  have wf: "wf_book (run ops)" by (rule wf_book_run)
  then have f: "traded (trades (run ops)) i + remaining_quantity (store (run ops) i)
      \<le> quantity (store (run ops) i)"
    by (simp add: wf_book_def fills_ok_def)
  have "id_o (store (run ops) i) = i"
    using wf assms by (simp add: wf_book_def addresses_ok_def)
  moreover have "remaining_quantity (store (run (ops @ ops')) i) \<le> remaining_quantity (store (run ops) i)"
    using foldl_apply_op_store [OF assms(2), of ops'] by (simp add: run_append)
  moreover have "quantity (store (run (ops @ ops')) i) = quantity (store (run ops) i)"
    using static_fields(5) [of "store (foldl apply_op (run ops) ops') i" "store (run ops) i"]
      foldl_apply_op_store [OF assms(2), of ops'] by (simp add: run_append)
  ultimately show ?thesis
    using f by (simp add: add_limit_order_id add_limit_order_quantity add_market_order_quantity)
qed

lemma scenario_1_order_4:
  "next_order_id (run (scenario_1 t1 t2 t3 t4 t5 t6 t7)) = 8"
  "quantity (store (run (scenario_1 t1 t2 t3 t4 t5 t6 t7)) 4) = 150"
  by (simp_all add: scenario_1_def run_def loop_simps op_defs)

text \<open>
  Witness for C5: order 4 of the scenario, submitted with 150, has traded 125 and has 25
  remaining; a cancel then leaves it with no more than that.
\<close>

theorem remaining_within_quantity_witness:
  "(0::nat) < 4 \<and> 4 < next_order_id (run (scenario_1 1 2 3 4 5 6 7)) \<and>
   quantity (store (run (scenario_1 1 2 3 4 5 6 7)) 4) = 150 \<and>
   remaining_quantity (store (run (scenario_1 1 2 3 4 5 6 7)) 4) = 25 \<and>
   traded (trades (run (scenario_1 1 2 3 4 5 6 7))) 4 = 125 \<and>
   traded (trades (run (scenario_1 1 2 3 4 5 6 7))) 4 +
     remaining_quantity (store (run (scenario_1 1 2 3 4 5 6 7)) 4)
     \<le> quantity (store (run (scenario_1 1 2 3 4 5 6 7)) 4) \<and>
   remaining_quantity (store (run (scenario_1 1 2 3 4 5 6 7 @ [Cancel 4])) 4)
     \<le> remaining_quantity (store (run (scenario_1 1 2 3 4 5 6 7)) 4)"
proof -
  have h: "(0::nat) < 4" "4 < next_order_id (run (scenario_1 1 2 3 4 5 6 7))"
    by (simp_all add: scenario_1_order_4)
  have t: "traded (trades (run (scenario_1 1 2 3 4 5 6 7))) 4 = 125"
    by (simp add: scenario_1_trades traded_def new_trade_def)
  from remaining_within_quantity [OF h, of "[Cancel 4]"] h t
    scenario_1_remaining [of 1 2 3 4 5 6 7] scenario_1_order_4(2) [of 1 2 3 4 5 6 7]
  show ?thesis by simp
qed

section \<open>Market orders\<close>

lemma add_market_order_returns:
  "fst (add_market_order s sd q now) = new_trades s (snd (add_market_order s sd q now))"
  by (simp add: add_market_order_eq Let_def)

lemma add_market_order_evolves:
  "evolves (placed s (new_order (next_order_id s) sd MARKET 0 q now) False)
     (snd (add_market_order s sd q now))"
  by (simp add: add_market_order_eq Let_def evolves_sweep)

lemma add_market_order_exit:
  "remaining_quantity (store (snd (add_market_order s sd q now)) (next_order_id s)) = 0 \<or>
   opp_queue sd (snd (add_market_order s sd q now)) = []"
  using sweep_exit [of False sd "placed s (new_order (next_order_id s) sd MARKET 0 q now) False"
      "next_order_id s"]
  by (auto simp: add_market_order_eq Let_def stops_def)

lemma market_fills_zero [simp]: "market_fills sd t 0 ms = []"
  by (cases ms) simp_all

lemma min_split: "min q r + min (q - min q r) S = min q (r + (S::nat))"
  by arith

lemma market_fills_sum:
  "sum_list (map quantity_t (market_fills sd t q ms)) =
     min q (sum_list (map remaining_quantity ms))"
proof (induction ms arbitrary: q)
  case Nil
  show ?case by simp
next
  case (Cons m ms)
  show ?case
  proof (cases "q = 0")
    case True
    then show ?thesis by simp
  next
    case False
    have "quantity_t (case sd of
              BUY \<Rightarrow> new_trade t (id_o m) (price m) (min q (remaining_quantity m))
            | SELL \<Rightarrow> new_trade (id_o m) t (price m) (min q (remaining_quantity m)))
          = min q (remaining_quantity m)"
      by (cases sd) (simp_all add: new_trade_def)
    with False Cons.IH [of "q - min q (remaining_quantity m)"]
    have "sum_list (map quantity_t (market_fills sd t q (m # ms))) =
        min q (remaining_quantity m) +
        min (q - min q (remaining_quantity m)) (sum_list (map remaining_quantity ms))"
      by simp
    then show ?thesis by (simp only: min_split list.map sum_list.Cons)
  qed
qed

lemma liquidity_filter_active:
  "sum_list (map remaining_quantity (map h (filter (active h) q))) = liquidity h q"
  by (induction q) (simp_all add: liquidity_def active_def)

lemma fill_trade_market:
  "fill_trade sd s t m =
     (case sd of
        BUY \<Rightarrow> new_trade (id_o (store s t)) (id_o (store s m)) (price (store s m))
                 (min (remaining_quantity (store s t)) (remaining_quantity (store s m)))
      | SELL \<Rightarrow> new_trade (id_o (store s m)) (id_o (store s t)) (price (store s m))
                 (min (remaining_quantity (store s t)) (remaining_quantity (store s m))))"
  by (cases sd) (simp_all add: fill_trade_def Let_def)

lemma sweep_market_fills:
  assumes "t \<notin> set (opp_queue sd s)" and "distinct (opp_queue sd s)"
  shows "new_trades s (sweep False sd s t) =
           market_fills sd (id_o (store s t)) (remaining_quantity (store s t))
             (map (store s) (filter (active (store s)) (opp_queue sd s)))"
  using assms
proof (induction rule: sweep_rule)
  case (stop s)
  then show ?case by (cases "opp_queue sd s = []") auto
next
  case (empty s)
  then show ?case
    using filter_active_clean_queue [of "store s" "opp_queue sd s"] by simp
next
  case (nocross s m r)
  then show ?case by (simp add: stops_def)
next
  case (fill s m r s')
  let ?c = "clean_empty_orders s"
  let ?f = "fill sd ?c t m"
  have ev: "evolves s ?f" by (rule evolves_trans [OF evolves_clean evolves_fill])
  have sub: "set (m # r) \<subseteq> set (opp_queue sd s)"
    using fill(2) clean_queue_subset [of "store s" "opp_queue sd s"] by simp
  have dist: "distinct (m # r)"
    using fill(2,8) clean_queue_suffix [of "store s" "opp_queue sd s"]
    by (metis suffixE distinct_append)
  from sub fill(7) have tm: "t \<noteq> m" and tr: "t \<notin> set r" by auto
  have "prefix (trades ?f) (trades s')" using fill(5) evolves_sweep by (simp add: evolves_def)
  then have nt: "new_trades s s' = fill_trade sd s t m # new_trades ?f s'"
    using new_trades_fill [of sd ?c t m s'] by simp
  have act: "filter (active (store s)) (opp_queue sd s) = m # filter (active (store s)) r"
    using filter_active_clean_queue [of "store s" "opp_queue sd s"] fill(2,3)
    by (simp add: active_def)
  let ?q = "min (remaining_quantity (store s t)) (remaining_quantity (store s m))"
  have remt: "remaining_quantity (store ?f t) = remaining_quantity (store s t) - ?q"
    using fill_subtracts_exactly(1) [OF tm, of sd ?c] by simp
  have ih: "new_trades ?f s' =
      market_fills sd (id_o (store ?f t)) (remaining_quantity (store ?f t))
        (map (store ?f) (filter (active (store ?f)) (opp_queue sd ?f)))"
    using fill(6) tm tr dist by (simp add: fill(2))
  have rest: "new_trades ?f s' =
      market_fills sd (id_o (store s t)) (remaining_quantity (store s t) - ?q)
        (map (store s) (filter (active (store s)) r))"
  proof (cases "active (store ?f) m")
    case True
    then have z: "remaining_quantity (store ?f t) = 0"
      using fill_exhausts [OF tm, of sd ?c] by (simp add: active_def)
    with ih remt show ?thesis by simp
  next
    case False
    have same: "store ?f x = store s x" if "x \<in> set r" for x
    proof -
      from that dist tr have "x \<noteq> m" "x \<noteq> t" by auto
      then show ?thesis by (simp add: fill_store_other)
    qed
    have "filter (active (store ?f)) r = filter (active (store s)) r"
      by (rule filter_cong [OF refl]) (simp add: active_def same)
    moreover have "map (store ?f) (filter (active (store s)) r) = map (store s) (filter (active (store s)) r)"
      by (rule map_cong [OF refl]) (simp add: same)
    ultimately have "map (store ?f) (filter (active (store ?f)) (opp_queue sd ?f)) =
        map (store s) (filter (active (store s)) r)"
      using False by (simp add: fill(2))
    with ih remt show ?thesis by (simp add: evolves_fields [OF ev])
  qed
  from fill(1) have "remaining_quantity (store s t) \<noteq> 0" by simp
  then show ?case
    by (simp add: nt act rest fill_trade_market)
qed


lemma traded_all:
  "\<forall>tr \<in> set ts. buyer_id tr = i \<or> seller_id tr = i \<Longrightarrow>
   traded ts i = sum_list (map quantity_t ts)"
  by (induction ts) (auto simp: traded_def)

lemma add_market_order_conserves:
  assumes "wf_book s"
  shows "traded (fst (add_market_order s sd q now)) p +
           remaining_quantity (store (snd (add_market_order s sd q now)) p) =
         (if p = next_order_id s then q else remaining_quantity (store s p))"
proof -
  let ?t = "next_order_id s"
  let ?p = "placed s (new_order ?t sd MARKET 0 q now) False"
  let ?s' = "sweep False sd ?p ?t"
  from assms have a: "addresses_ok s" by (simp add: wf_book_def)
  have ids: "\<forall>m \<in> set (opp_queue sd ?p). id_o (store ?p m) = m"
    using opp_queue_addresses(2,3) [OF a] by auto
  have "traded (trades ?s') p + remaining_quantity (store ?s' p) =
        traded (trades ?p) p + remaining_quantity (store ?p p)"
    using addresses_ok_fresh(3) [OF a, of sd] ids
    by (intro sweep_conserves) (simp_all add: new_order_def)
  moreover have "trades ?s' = trades s @ new_trades s ?s'"
    using evolves_trades [OF evolves_sweep [of ?p False sd ?t]] by simp
  ultimately have "traded (new_trades s ?s') p + remaining_quantity (store ?s' p) =
      remaining_quantity (store ?p p)"
    by simp
  then show ?thesis by (simp add: add_market_order_eq Let_def new_order_def)
qed

lemma add_market_order_fills:
  assumes "wf_book s"
  shows "fst (add_market_order s sd q now) =
           market_fills sd (next_order_id s) q
             (map (store s) (filter (active (store s)) (opp_queue sd s)))"
proof -
  let ?t = "next_order_id s"
  let ?p = "placed s (new_order ?t sd MARKET 0 q now) False"
  let ?X = "filter (active (store s)) (opp_queue sd s)"
  from assms have a: "addresses_ok s" and r: "resting_ok s" by (simp_all add: wf_book_def)
  have d: "distinct (opp_queue sd s)"
    using r by (cases sd) (simp_all add: resting_ok_def opp_queue_def)
  have A: "new_trades ?p (sweep False sd ?p ?t) =
      market_fills sd (id_o (store ?p ?t)) (remaining_quantity (store ?p ?t))
        (map (store ?p) (filter (active (store ?p)) (opp_queue sd ?p)))"
    using addresses_ok_fresh(3) [OF a, of sd] d by (intro sweep_market_fills) simp_all
  have "filter (active (store ?p)) (opp_queue sd s) = ?X"
    using opp_queue_addresses(2) [OF a] by (intro filter_cong) (auto simp: active_def)
  then have f: "filter (active (store ?p)) (opp_queue sd ?p) = ?X" by simp
  have m: "map (store ?p) ?X = map (store s) ?X"
    using opp_queue_addresses(2) [OF a] by (intro map_cong) auto
  have C: "id_o (store ?p ?t) = ?t" "remaining_quantity (store ?p ?t) = q"
    by (simp_all add: new_order_def)
  have "fst (add_market_order s sd q now) = new_trades ?p (sweep False sd ?p ?t)"
    by (simp add: add_market_order_eq Let_def)
  also have "\<dots> = market_fills sd ?t q (map (store s) ?X)"
    by (simp only: A f m C)
  finally show ?thesis .
qed

text \<open>
  C7. \<open>add_market_order\<close> on any reachable book matches without any test on the price:
  the trades it returns are those of the specification's loop with the crossing test
  always true, run on the orders of the opposite queue that have something remaining, in
  the order of the queue. Their quantities add up to the smaller of the order's quantity
  and all that remained on the opposite queue; with what remains of the market order they
  add up to its quantity, and every other order has lost exactly what the returned trades
  record for it. When the call returns, the order has nothing remaining or the opposite
  queue is empty. The returned trades are exactly those appended to the trade log, in the
  order of the log, and each names the new order on its own side. The order is on neither
  queue afterwards, whatever remains of it (the queues only lose elements), and it is not
  in \<open>order_map\<close>.
\<close>

theorem market_order_never_rests:
  "fst (add_market_order (run ops) sd q now) =
     new_trades (run ops) (snd (add_market_order (run ops) sd q now)) \<and>
   trades (snd (add_market_order (run ops) sd q now)) =
     trades (run ops) @ fst (add_market_order (run ops) sd q now) \<and>
   (\<forall>tr \<in> set (fst (add_market_order (run ops) sd q now)).
      taker_id sd tr = next_order_id (run ops)) \<and>
   (remaining_quantity (store (snd (add_market_order (run ops) sd q now)) (next_order_id (run ops))) = 0 \<or>
    opp_queue sd (snd (add_market_order (run ops) sd q now)) = []) \<and>
   next_order_id (run ops) \<notin> set (buy_orders (snd (add_market_order (run ops) sd q now))) \<and>
   next_order_id (run ops) \<notin> set (sell_orders (snd (add_market_order (run ops) sd q now))) \<and>
   set (buy_orders (snd (add_market_order (run ops) sd q now))) \<subseteq> set (buy_orders (run ops)) \<and>
   set (sell_orders (snd (add_market_order (run ops) sd q now))) \<subseteq> set (sell_orders (run ops)) \<and>
   order_map (snd (add_market_order (run ops) sd q now)) (next_order_id (run ops)) = None \<and>
   fst (add_market_order (run ops) sd q now) =
     market_fills sd (next_order_id (run ops)) q
       (map (store (run ops)) (filter (active (store (run ops))) (opp_queue sd (run ops)))) \<and>
   sum_list (map quantity_t (fst (add_market_order (run ops) sd q now))) =
     min q (liquidity (store (run ops)) (opp_queue sd (run ops))) \<and>
   sum_list (map quantity_t (fst (add_market_order (run ops) sd q now))) +
     remaining_quantity (store (snd (add_market_order (run ops) sd q now)) (next_order_id (run ops))) = q \<and>
   traded (fst (add_market_order (run ops) sd q now)) p +
     remaining_quantity (store (snd (add_market_order (run ops) sd q now)) p) =
     (if p = next_order_id (run ops) then q else remaining_quantity (store (run ops) p))"
proof -
  let ?s = "run ops"
  let ?s' = "snd (add_market_order ?s sd q now)"
  let ?p = "placed ?s (new_order (next_order_id ?s) sd MARKET 0 q now) False"
  have wf: "wf_book ?s" by (rule wf_book_run)
  then have a: "addresses_ok ?s" by (simp add: wf_book_def)
  have ev: "evolves ?p ?s'" by (rule add_market_order_evolves)
  have ret: "fst (add_market_order ?s sd q now) = new_trades ?s ?s'"
    by (rule add_market_order_returns)
  have tr: "trades ?s' = trades ?s @ new_trades ?s ?s'"
    using evolves_trades [OF ev] by simp
  have tk: "\<forall>tr \<in> set (new_trades ?s ?s'). taker_id sd tr = next_order_id ?s"
  proof
    fix tr assume "tr \<in> set (new_trades ?s ?s')"
    then have "maker_priced sd ?s (next_order_id ?s) 0 tr"
      by (intro maker_priced_sweep_placed [where x = "new_order (next_order_id ?s) sd MARKET 0 q now"
            and reg = False and lmt = False] wf)
         (simp_all add: add_market_order_eq Let_def new_order_def)
    then show "taker_id sd tr = next_order_id ?s" by (simp add: maker_priced_def)
  qed
  have sub: "set (buy_orders ?s') \<subseteq> set (buy_orders ?s)" "set (sell_orders ?s') \<subseteq> set (sell_orders ?s)"
    using evolves_queues(1,2) [OF ev] by simp_all
  then have fresh: "next_order_id ?s \<notin> set (buy_orders ?s')" "next_order_id ?s \<notin> set (sell_orders ?s')"
    using addresses_ok_fresh(1,2) [OF a] by auto
  have om: "order_map ?s' (next_order_id ?s) = None"
  proof (cases "order_map ?s' (next_order_id ?s)")
    case (Some p)
    then have "order_map ?p (next_order_id ?s) = Some p"
      using ev by (auto simp: evolves_def map_le_def dom_def)
    then show ?thesis using addresses_ok_fresh(5) [OF a] by simp
  qed simp
  have fills: "fst (add_market_order ?s sd q now) =
      market_fills sd (next_order_id ?s) q
        (map (store ?s) (filter (active (store ?s)) (opp_queue sd ?s)))"
    using wf by (rule add_market_order_fills)
  have total: "sum_list (map quantity_t (fst (add_market_order ?s sd q now))) =
      min q (liquidity (store ?s) (opp_queue sd ?s))"
    unfolding fills market_fills_sum liquidity_filter_active ..
  have cons: "traded (fst (add_market_order ?s sd q now)) p + remaining_quantity (store ?s' p) =
      (if p = next_order_id ?s then q else remaining_quantity (store ?s p))" for p
    using wf by (rule add_market_order_conserves)
  have "\<forall>tr \<in> set (fst (add_market_order ?s sd q now)).
      buyer_id tr = next_order_id ?s \<or> seller_id tr = next_order_id ?s"
    using tk ret by (cases sd) (auto simp: taker_id_def)
  then have "traded (fst (add_market_order ?s sd q now)) (next_order_id ?s) =
      sum_list (map quantity_t (fst (add_market_order ?s sd q now)))"
    by (rule traded_all)
  with cons [of "next_order_id ?s"]
  have left: "sum_list (map quantity_t (fst (add_market_order ?s sd q now))) +
      remaining_quantity (store ?s' (next_order_id ?s)) = q"
    by simp
  from ret tr tk sub fresh om add_market_order_exit [of ?s sd q now] fills [symmetric] total left cons [of p]
  show ?thesis by (intro conjI) simp_all
qed

lemma scenario_2_trades:
  "fst (add_market_order (run (scenario_1 t1 t2 t3 t4 t5 t6 t7)) SELL 120 t8) =
     [new_trade 3 8 100.75 50, new_trade 1 8 100.50 70]"
  by (simp add: scenario_1_def run_def loop_simps op_defs)

lemma partial_fill_example_market:
  "fst (add_market_order (run partial_fill_example) SELL 25 2) = [new_trade 1 2 100 10]"
  "remaining_quantity (store (snd (add_market_order (run partial_fill_example) SELL 25 2)) 2) = 15"
  "next_order_id (run partial_fill_example) = 2"
  by (simp_all add: partial_fill_example_def run_def loop_simps op_defs)

lemma two_asks_example_market:
  "fst (add_market_order (run two_asks_example) BUY 7 3) =
     [new_trade 3 1 100 5, new_trade 3 2 101 2]"
  "remaining_quantity (store (snd (add_market_order (run two_asks_example) BUY 7 3)) 2) = 3"
  "next_order_id (run two_asks_example) = 3"
  "liquidity (store (run two_asks_example)) (opp_queue BUY (run two_asks_example)) = 10"
  by (simp_all add: two_asks_example_def run_def loop_simps op_defs liquidity_def opp_queue_def)

text \<open>
  Witness for C7: the market sell of 120 that follows the scenario in \<open>main\<close> trades 50
  with order 3 at 100.75 and 70 with order 1 at 100.50 and is exhausted; a market sell of
  25 against a single bid of 10 trades 10, empties the buy queue and is gone with 15
  remaining; a market buy of 7 against asks of 5 at 100 and 5 at 101 trades 5 at 100 and
  2 at 101.
\<close>

theorem market_order_never_rests_witness:
  "fst (add_market_order (run (scenario_1 1 2 3 4 5 6 7)) SELL 120 8) =
     [new_trade 3 8 100.75 50, new_trade 1 8 100.50 70] \<and>
   taker_id SELL (new_trade 3 8 100.75 50) = 8 \<and>
   taker_id SELL (new_trade 1 8 100.50 70) = 8 \<and>
   remaining_quantity (store (snd (add_market_order (run (scenario_1 1 2 3 4 5 6 7)) SELL 120 8)) 8) = 0 \<and>
   8 \<notin> set (buy_orders (snd (add_market_order (run (scenario_1 1 2 3 4 5 6 7)) SELL 120 8))) \<and>
   8 \<notin> set (sell_orders (snd (add_market_order (run (scenario_1 1 2 3 4 5 6 7)) SELL 120 8))) \<and>
   order_map (snd (add_market_order (run (scenario_1 1 2 3 4 5 6 7)) SELL 120 8)) 8 = None \<and>
   fst (add_market_order (run partial_fill_example) SELL 25 2) = [new_trade 1 2 100 10] \<and>
   remaining_quantity (store (snd (add_market_order (run partial_fill_example) SELL 25 2)) 2) = 15 \<and>
   opp_queue SELL (snd (add_market_order (run partial_fill_example) SELL 25 2)) = [] \<and>
   2 \<notin> set (sell_orders (snd (add_market_order (run partial_fill_example) SELL 25 2))) \<and>
   order_map (snd (add_market_order (run partial_fill_example) SELL 25 2)) 2 = None \<and>
   fst (add_market_order (run two_asks_example) BUY 7 3) =
     [new_trade 3 1 100 5, new_trade 3 2 101 2] \<and>
   market_fills BUY 3 7 (map (store (run two_asks_example))
       (filter (active (store (run two_asks_example))) (opp_queue BUY (run two_asks_example)))) =
     [new_trade 3 1 100 5, new_trade 3 2 101 2] \<and>
   sum_list (map quantity_t [new_trade 3 1 100 5, new_trade 3 2 101 2]) =
     min 7 (liquidity (store (run two_asks_example)) (opp_queue BUY (run two_asks_example))) \<and>
   remaining_quantity (store (snd (add_market_order (run two_asks_example) BUY 7 3)) 3) = 0 \<and>
   traded [new_trade 3 1 100 5, new_trade 3 2 101 2] 2 +
     remaining_quantity (store (snd (add_market_order (run two_asks_example) BUY 7 3)) 2) =
     remaining_quantity (store (run two_asks_example) 2) \<and>
   3 \<notin> set (buy_orders (snd (add_market_order (run two_asks_example) BUY 7 3)))"
proof -
  let ?sc = "run (scenario_1 1 2 3 4 5 6 7)"
  let ?pf = "run partial_fill_example"
  let ?ta = "run two_asks_example"
  note A = market_order_never_rests [of "scenario_1 1 2 3 4 5 6 7" SELL 120 8 8]
  note B = market_order_never_rests [of partial_fill_example SELL 25 2 2]
  note C = market_order_never_rests [of two_asks_example BUY 7 3 2]
  note n = scenario_1_order_4(1) partial_fill_example_market(3)
    two_asks_example_market(3)
  from A have "sum_list (map quantity_t (fst (add_market_order ?sc SELL 120 8))) +
      remaining_quantity (store (snd (add_market_order ?sc SELL 120 8)) (next_order_id ?sc)) = 120"
    by blast
  then have a1: "remaining_quantity (store (snd (add_market_order ?sc SELL 120 8)) 8) = 0"
    by (simp add: n scenario_2_trades new_trade_def)
  from A have "next_order_id ?sc \<notin> set (buy_orders (snd (add_market_order ?sc SELL 120 8)))"
    "next_order_id ?sc \<notin> set (sell_orders (snd (add_market_order ?sc SELL 120 8)))"
    "order_map (snd (add_market_order ?sc SELL 120 8)) (next_order_id ?sc) = None"
    by blast+
  then have a2: "8 \<notin> set (buy_orders (snd (add_market_order ?sc SELL 120 8)))"
    "8 \<notin> set (sell_orders (snd (add_market_order ?sc SELL 120 8)))"
    "order_map (snd (add_market_order ?sc SELL 120 8)) 8 = None"
    by (simp_all add: n)
  from B have "remaining_quantity (store (snd (add_market_order ?pf SELL 25 2)) (next_order_id ?pf)) = 0 \<or>
      opp_queue SELL (snd (add_market_order ?pf SELL 25 2)) = []"
    "next_order_id ?pf \<notin> set (sell_orders (snd (add_market_order ?pf SELL 25 2)))"
    "order_map (snd (add_market_order ?pf SELL 25 2)) (next_order_id ?pf) = None"
    by blast+
  then have b: "opp_queue SELL (snd (add_market_order ?pf SELL 25 2)) = []"
    "2 \<notin> set (sell_orders (snd (add_market_order ?pf SELL 25 2)))"
    "order_map (snd (add_market_order ?pf SELL 25 2)) 2 = None"
    by (simp_all add: n partial_fill_example_market(2))
  note e = two_asks_example_market(1,3)
  from C have "fst (add_market_order ?ta BUY 7 3) =
      market_fills BUY (next_order_id ?ta) 7
        (map (store ?ta) (filter (active (store ?ta)) (opp_queue BUY ?ta)))"
    by blast
  then have c1: "market_fills BUY 3 7
        (map (store ?ta) (filter (active (store ?ta)) (opp_queue BUY ?ta))) =
      [new_trade 3 1 100 5, new_trade 3 2 101 2]"
    unfolding e by (rule sym)
  from C have "sum_list (map quantity_t (fst (add_market_order ?ta BUY 7 3))) =
      min 7 (liquidity (store ?ta) (opp_queue BUY ?ta))"
    by blast
  then have c2: "sum_list (map quantity_t [new_trade 3 1 100 5, new_trade 3 2 101 2]) =
      min 7 (liquidity (store ?ta) (opp_queue BUY ?ta))"
    unfolding e .
  from C have "sum_list (map quantity_t (fst (add_market_order ?ta BUY 7 3))) +
      remaining_quantity (store (snd (add_market_order ?ta BUY 7 3)) (next_order_id ?ta)) = 7"
    by blast
  then have c3: "remaining_quantity (store (snd (add_market_order ?ta BUY 7 3)) 3) = 0"
    unfolding e by (simp add: new_trade_def)
  from C have "traded (fst (add_market_order ?ta BUY 7 3)) 2 +
      remaining_quantity (store (snd (add_market_order ?ta BUY 7 3)) 2) =
      (if 2 = next_order_id ?ta then 7 else remaining_quantity (store ?ta 2))"
    by blast
  then have c4: "traded [new_trade 3 1 100 5, new_trade 3 2 101 2] 2 +
      remaining_quantity (store (snd (add_market_order ?ta BUY 7 3)) 2) =
      remaining_quantity (store ?ta 2)"
    unfolding e by simp
  from C have "next_order_id ?ta \<notin> set (buy_orders (snd (add_market_order ?ta BUY 7 3)))"
    by blast
  then have c5: "3 \<notin> set (buy_orders (snd (add_market_order ?ta BUY 7 3)))"
    unfolding e .
  note c = c1 c2 c3 c4 c5
  show ?thesis
    by (intro conjI a1 a2 b c scenario_2_trades partial_fill_example_market(1,2)
        two_asks_example_market(1)) (simp_all add: taker_id_def new_trade_def)
qed

section \<open>Order ids\<close>

lemma next_order_id_add_limit_order:
  "next_order_id (snd (add_limit_order s sd p q now)) = next_order_id s + 1"
proof -
  let ?p = "placed s (new_order (next_order_id s) sd LIMIT p q now) True"
  have "evolves ?p (sweep True sd ?p (next_order_id s))" by (rule evolves_sweep)
  then show ?thesis by (simp add: add_limit_order_eq Let_def evolves_def)
qed

lemma next_order_id_add_market_order:
  "next_order_id (snd (add_market_order s sd q now)) = next_order_id s + 1"
proof -
  let ?p = "placed s (new_order (next_order_id s) sd MARKET 0 q now) False"
  have "evolves ?p (sweep False sd ?p (next_order_id s))" by (rule evolves_sweep)
  then show ?thesis by (simp add: add_market_order_eq Let_def evolves_def)
qed

text \<open>
  The counter is one ahead of the number of orders constructed so far. The \<open>uint64_t\<close>
  of the source holds the same value as long as that number is below \<open>2^64 - 1\<close>.
\<close>

lemma counter_value: "next_order_id (run ops) = 1 + length (filter constructs ops)"
proof (induction ops rule: rev_induct)
  case Nil
  show ?case by (simp add: run_def init_book_def)
next
  case (snoc op ops)
  then show ?case
    by (cases op)
       (simp_all add: run_snoc next_order_id_add_limit_order next_order_id_add_market_order
          cancel_order_def split: option.splits)
qed

lemma limit_ids_increasing:
  "sorted_wrt (<) (limit_ids s ops) \<and> (\<forall>i \<in> set (limit_ids s ops). next_order_id s \<le> i)"
proof (induction s ops rule: limit_ids.induct)
  case (1 s)
  show ?case by simp
next
  case (2 s sd p q now ops)
  then show ?case
    by (auto simp: add_limit_order_id next_order_id_add_limit_order)
next
  case (3 s sd q now ops)
  then show ?case by (auto simp: next_order_id_add_market_order)
next
  case (4 s i ops)
  then show ?case
    using next_order_id_apply_op [of s "Cancel i"] by auto
qed

text \<open>
  C8. \<open>add_limit_order\<close> always returns, and what it returns is the id of the order it has
  constructed, the value of the counter at the call, which is positive. On a fresh engine
  the first call returns 1. Over any sequence of operations on one engine the ids
  returned by its calls of \<open>add_limit_order\<close>, in the order of the calls, are positive and
  strictly increasing, so none is returned twice.
\<close>

theorem limit_order_ids:
  "fst (add_limit_order (run ops) sd p q now) = next_order_id (run ops) \<and>
   id_o (store (snd (add_limit_order (run ops) sd p q now)) (next_order_id (run ops)))
     = next_order_id (run ops) \<and>
   0 < fst (add_limit_order (run ops) sd p q now) \<and>
   fst (add_limit_order init_book sd p q now) = 1 \<and>
   sorted_wrt (<) (limit_ids init_book ops) \<and>
   distinct (limit_ids init_book ops) \<and>
   (\<forall>i \<in> set (limit_ids init_book ops). 0 < i)"
proof -
  have inc: "sorted_wrt (<) (limit_ids init_book ops)"
    and ge: "\<forall>i \<in> set (limit_ids init_book ops). next_order_id init_book \<le> i"
    using limit_ids_increasing [of init_book ops] by simp_all
  have "distinct (limit_ids init_book ops)"
    using inc strict_sorted_iff [of "limit_ids init_book ops"] by simp
  moreover have "0 < next_order_id (run ops)"
    using wf_book_run [of ops] by (simp add: wf_book_def addresses_ok_def)
  moreover have "id_o (store (snd (add_limit_order (run ops) sd p q now)) (next_order_id (run ops)))
     = next_order_id (run ops)"
  proof -
    let ?s = "run ops"
    let ?p = "placed ?s (new_order (next_order_id ?s) sd LIMIT p q now) True"
    have "evolves ?p (sweep True sd ?p (next_order_id ?s))" by (rule evolves_sweep)
    from evolves_fields(1) [OF this, of "next_order_id ?s"] show ?thesis
      by (simp add: add_limit_order_eq Let_def new_order_def)
  qed
  moreover have "\<forall>i \<in> set (limit_ids init_book ops). 0 < i"
    using ge by (auto simp: init_book_def)
  ultimately show ?thesis
    using inc by (simp add: add_limit_order_id) (simp add: init_book_def)
qed

lemma ids_example_ids: "limit_ids init_book ids_example = [1, 3]"
  by (simp add: ids_example_def loop_simps op_defs)

text \<open>
  Witness for C8: the two limit orders of the example get the ids 1 and 3, the market
  order between them having taken 2.
\<close>

theorem limit_order_ids_witness:
  "limit_ids init_book ids_example = [1, 3] \<and>
   sorted_wrt (<) (limit_ids init_book ids_example) \<and>
   distinct (limit_ids init_book ids_example) \<and>
   fst (add_limit_order (run ids_example) BUY 100 10 1) = next_order_id (run ids_example) \<and>
   fst (add_limit_order init_book BUY 100 10 1) = 1"
  using limit_order_ids [of ids_example BUY 100 10 1]
  by (simp add: ids_example_ids)

section \<open>The id of a market order\<close>

lemma order_map_apply_op:
  assumes "i < next_order_id s" and "order_map s i = None"
  shows "order_map (apply_op s op) i = None"
proof -
  have shrink: "order_map b i = None" if "evolves a b" "order_map a i = None" for a b
  proof (cases "order_map b i")
    case (Some p)
    with that show ?thesis by (auto simp: evolves_def map_le_def dom_def)
  qed simp
  show ?thesis
  proof (cases op)
    case (AddLimit sd p q now)
    let ?p = "placed s (new_order (next_order_id s) sd LIMIT p q now) True"
    have "order_map ?p i = None" using assms by (simp add: new_order_def)
    from shrink [OF evolves_sweep this] AddLimit show ?thesis
      by (simp add: add_limit_order_eq Let_def)
  next
    case (AddMarket sd q now)
    let ?p = "placed s (new_order (next_order_id s) sd MARKET 0 q now) False"
    have "order_map ?p i = None" using assms by simp
    from shrink [OF evolves_sweep this] AddMarket show ?thesis
      by (simp add: add_market_order_eq Let_def)
  next
    case (Cancel j)
    from shrink [OF evolves_cancel assms(2)] Cancel show ?thesis by simp
  qed
qed

lemma order_map_foldl_apply_op:
  assumes "i < next_order_id s" and "order_map s i = None"
  shows "order_map (foldl apply_op s ops) i = None"
  using assms
proof (induction ops arbitrary: s)
  case Nil
  then show ?case by simp
next
  case (Cons op ops)
  have "i < next_order_id (apply_op s op)"
    using Cons.prems(1) next_order_id_apply_op [of s op] by simp
  moreover have "order_map (apply_op s op) i = None"
    using Cons.prems by (rule order_map_apply_op)
  ultimately show ?case using Cons.IH by simp
qed

lemma cancel_order_absent:
  "order_map s i = None \<Longrightarrow> cancel_order s i = (False, s)"
  by (simp add: cancel_order_def)

text \<open>
  C10, as amended. A market order takes its id from the counter that numbers the limit
  orders and is never entered in \<open>order_map\<close>. Every trade that \<open>add_market_order\<close> returns
  carries this id on the side of the incoming order (\<open>buyer_id\<close> for a market buy,
  \<open>seller_id\<close> for a market sell), and \<open>cancel_order\<close> on it, right after the call or after
  any further operations, returns false and changes nothing. A limit order submitted
  next gets the id after the market order's.
\<close>

theorem market_order_id_not_cancellable:
  "(\<forall>tr \<in> set (fst (add_market_order (run ops) sd q now)).
      taker_id sd tr = next_order_id (run ops)) \<and>
   cancel_order (foldl apply_op (snd (add_market_order (run ops) sd q now)) ops')
      (next_order_id (run ops)) =
     (False, foldl apply_op (snd (add_market_order (run ops) sd q now)) ops') \<and>
   fst (add_limit_order (snd (add_market_order (run ops) sd q now)) sd' p' q' now') =
     next_order_id (run ops) + 1"
proof -
  let ?s = "run ops"
  let ?t = "next_order_id ?s"
  let ?s' = "snd (add_market_order ?s sd q now)"
  let ?p = "placed ?s (new_order ?t sd MARKET 0 q now) False"
  have wf: "wf_book ?s" by (rule wf_book_run)
  have tk: "\<forall>tr \<in> set (fst (add_market_order ?s sd q now)). taker_id sd tr = ?t"
  proof
    fix tr assume "tr \<in> set (fst (add_market_order ?s sd q now))"
    then have "maker_priced sd ?s ?t 0 tr"
      by (intro maker_priced_sweep_placed [where x = "new_order ?t sd MARKET 0 q now"
            and reg = False and lmt = False] wf)
         (simp_all add: add_market_order_eq Let_def new_order_def)
    then show "taker_id sd tr = ?t" by (simp add: maker_priced_def)
  qed
  have "order_map ?p ?t = None"
    using addresses_ok_fresh(5) [of ?s] wf by (simp add: wf_book_def)
  moreover have "evolves ?p ?s'" by (rule add_market_order_evolves)
  ultimately have none: "order_map ?s' ?t = None"
    by (cases "order_map ?s' ?t") (auto simp: evolves_def map_le_def dom_def)
  have "order_map (foldl apply_op ?s' ops') ?t = None"
    using none by (intro order_map_foldl_apply_op) (simp_all add: next_order_id_add_market_order)
  then have "cancel_order (foldl apply_op ?s' ops') ?t = (False, foldl apply_op ?s' ops')"
    by (rule cancel_order_absent)
  with tk show ?thesis
    by (simp add: add_limit_order_id next_order_id_add_market_order)
qed

text \<open>
  C10 as stated speaks of every id in the returned trades. The other id of a trade is
  that of the resting order, which is still in \<open>order_map\<close> when the trade has filled it
  in part: a market sell of 5 against bid 1 for 10 returns the trade (buyer 1, seller 2),
  and \<open>cancel_order\<close> on 1 then returns true.
\<close>

theorem market_order_trade_ids_counterexample:
  "fst (add_market_order (run partial_fill_example) SELL 5 2) = [new_trade 1 2 100 5] \<and>
   buyer_id (new_trade 1 2 100 5) = 1 \<and>
   fst (cancel_order (snd (add_market_order (run partial_fill_example) SELL 5 2)) 1) = True"
  by (simp add: partial_fill_example_def run_def loop_simps op_defs)

text \<open>Witness for C10 as amended: the same market sell, whose own id is 2.\<close>

theorem market_order_id_not_cancellable_witness:
  "fst (add_market_order (run partial_fill_example) SELL 5 2) = [new_trade 1 2 100 5] \<and>
   taker_id SELL (new_trade 1 2 100 5) = 2 \<and>
   cancel_order (snd (add_market_order (run partial_fill_example) SELL 5 2)) 2 =
     (False, snd (add_market_order (run partial_fill_example) SELL 5 2)) \<and>
   fst (add_limit_order (snd (add_market_order (run partial_fill_example) SELL 5 2)) BUY 99 1 3) = 3"
proof -
  have t: "fst (add_market_order (run partial_fill_example) SELL 5 2) = [new_trade 1 2 100 5]"
    by (simp add: partial_fill_example_def run_def loop_simps op_defs)
  have n: "next_order_id (run partial_fill_example) = 2"
    by (simp add: partial_fill_example_def run_def loop_simps op_defs)
  from market_order_id_not_cancellable [of partial_fill_example SELL 5 2 "[]" BUY 99 1 3] t n
  show ?thesis by simp
qed

section \<open>Best prices\<close>

lemma best_price_loop_first:
  "best_price_loop h q = (case filter (active h) q of [] \<Rightarrow> 0 | b # _ \<Rightarrow> price (h b))"
  by (induction q) (simp_all add: active_def)

lemma first_active_best:
  assumes "sorted_wrt (\<lambda>x y. \<not> R (h y) (h x)) q" and "\<And>x. \<not> R x x"
    and "filter (active h) q = b # r" and "b' \<in> set q" and "active h b'"
  shows "\<not> R (h b') (h b)"
proof -
  have "sorted_wrt (\<lambda>x y. \<not> R (h y) (h x)) (filter (active h) q)"
    using assms(1) by (rule sorted_wrt_filter)
  moreover have "b' \<in> set (filter (active h) q)" using assms(4,5) by simp
  ultimately show ?thesis using assms(2,3) by auto
qed

lemma best_price_highest:
  assumes "sorted_wrt (\<lambda>x y. \<not> R (h y) (h x)) q" and "\<And>x. \<not> R x x"
    and "\<exists>b \<in> set q. active h b"
  shows "\<exists>b \<in> set q. active h b \<and> best_price_loop h q = price (h b) \<and>
           (\<forall>b' \<in> set q. active h b' \<longrightarrow> \<not> R (h b') (h b))"
proof -
  from assms(3) obtain b r where f: "filter (active h) q = b # r"
    by (cases "filter (active h) q") (auto simp: filter_empty_conv)
  then have "b \<in> set (filter (active h) q)" by simp
  then have "b \<in> set q" "active h b" by simp_all
  moreover have "best_price_loop h q = price (h b)" by (simp add: best_price_loop_first f)
  moreover have "\<forall>b' \<in> set q. active h b' \<longrightarrow> \<not> R (h b') (h b)"
    using first_active_best [OF assms(1,2) f] by blast
  ultimately show ?thesis by blast
qed

text \<open>
  C9, as amended. On every reachable book, when the buy queue holds no order with
  something remaining (it is empty, or all its orders have nothing remaining),
  \<open>get_best_bid\<close> returns \<open>0.0\<close>; otherwise it returns the price of an order of the queue with
  something remaining that no such order of the queue outranks. The same holds of
  \<open>get_best_ask\<close> and the sell queue. The \<open>0.0\<close> is an ordinary value of the price type, not
  a value set apart.
\<close>

theorem best_price_or_zero:
  "((\<forall>b \<in> set (buy_orders (run ops)). \<not> active (store (run ops)) b) \<longrightarrow>
      get_best_bid (run ops) = 0) \<and>
   ((\<exists>b \<in> set (buy_orders (run ops)). active (store (run ops)) b) \<longrightarrow>
      (\<exists>b \<in> set (buy_orders (run ops)). active (store (run ops)) b \<and>
         get_best_bid (run ops) = price (store (run ops) b) \<and>
         (\<forall>b' \<in> set (buy_orders (run ops)). active (store (run ops)) b' \<longrightarrow>
            \<not> bid_outranks (store (run ops) b') (store (run ops) b)))) \<and>
   ((\<forall>a \<in> set (sell_orders (run ops)). \<not> active (store (run ops)) a) \<longrightarrow>
      get_best_ask (run ops) = 0) \<and>
   ((\<exists>a \<in> set (sell_orders (run ops)). active (store (run ops)) a) \<longrightarrow>
      (\<exists>a \<in> set (sell_orders (run ops)). active (store (run ops)) a \<and>
         get_best_ask (run ops) = price (store (run ops) a) \<and>
         (\<forall>a' \<in> set (sell_orders (run ops)). active (store (run ops)) a' \<longrightarrow>
            \<not> ask_outranks (store (run ops) a') (store (run ops) a))))"
proof -
  let ?s = "run ops"
  have "ranked_ok ?s" using wf_book_run [of ops] by (simp add: wf_book_def)
  then have sb: "sorted_wrt (\<lambda>x y. \<not> bid_outranks (store ?s y) (store ?s x)) (buy_orders ?s)"
    and sa: "sorted_wrt (\<lambda>x y. \<not> ask_outranks (store ?s y) (store ?s x)) (sell_orders ?s)"
    by (simp_all add: ranked_ok_def ranked_def BuyOrderComparator_outranks SellOrderComparator_outranks)
  have ib: "\<not> bid_outranks x x" and ia: "\<not> ask_outranks x x" for x
    by (simp_all add: bid_outranks_def ask_outranks_def)
  show ?thesis
    using best_price_highest [OF sb ib] best_price_highest [OF sa ia]
      best_price_loop_none [of "buy_orders ?s" "store ?s"]
      best_price_loop_none [of "sell_orders ?s" "store ?s"]
    by (simp add: get_best_bid_def get_best_ask_def)
qed

text \<open>
  C9 as stated wants a value for "no orders" that is distinct and not a price. The code
  returns \<open>0.0\<close> (lines 237 and 249, commented "No bids" and "No asks"), and returns the
  same \<open>0.0\<close> as the best bid of a book whose buy queue holds an order with 10 remaining
  at that price.
\<close>

theorem best_price_sentinel_counterexample:
  "get_best_bid init_book = 0 \<and>
   buy_orders (run zero_bid_example) = [1] \<and>
   remaining_quantity (store (run zero_bid_example) 1) = 10 \<and>
   get_best_bid (run zero_bid_example) = 0"
  by (simp add: zero_bid_example_def run_def loop_simps op_defs)

lemma scenario_1_best_ask: "get_best_ask (run (scenario_1 t1 t2 t3 t4 t5 t6 t7)) = 101"
  by (simp add: scenario_1_def run_def loop_simps op_defs)

text \<open>
  Witness for C9 as amended: no asks after the single bid and no bids on the fresh book,
  bids and asks after the scenario.
\<close>

theorem best_price_or_zero_witness:
  "sell_orders (run zero_bid_example) = [] \<and>
   get_best_ask (run zero_bid_example) = 0 \<and>
   buy_orders (run []) = [] \<and>
   get_best_bid (run []) = 0 \<and>
   (\<exists>b \<in> set (buy_orders (run (scenario_1 1 2 3 4 5 6 7))).
      active (store (run (scenario_1 1 2 3 4 5 6 7))) b \<and>
      get_best_bid (run (scenario_1 1 2 3 4 5 6 7)) = price (store (run (scenario_1 1 2 3 4 5 6 7)) b)) \<and>
   (\<exists>a \<in> set (sell_orders (run (scenario_1 1 2 3 4 5 6 7))).
      active (store (run (scenario_1 1 2 3 4 5 6 7))) a \<and>
      get_best_ask (run (scenario_1 1 2 3 4 5 6 7)) = price (store (run (scenario_1 1 2 3 4 5 6 7)) a))"
proof -
  have z: "sell_orders (run zero_bid_example) = []"
    by (simp add: zero_bid_example_def run_def loop_simps op_defs)
  have e: "buy_orders (run []) = []"
    by (simp add: run_def init_book_def)
  have b: "\<exists>b \<in> set (buy_orders (run (scenario_1 1 2 3 4 5 6 7))).
      active (store (run (scenario_1 1 2 3 4 5 6 7))) b"
    using scenario_1_remaining [of 1 2 3 4 5 6 7] by (simp add: scenario_1_queues active_def)
  have a: "\<exists>a \<in> set (sell_orders (run (scenario_1 1 2 3 4 5 6 7))).
      active (store (run (scenario_1 1 2 3 4 5 6 7))) a"
    using scenario_1_remaining [of 1 2 3 4 5 6 7] by (simp add: scenario_1_queues active_def)
  from best_price_or_zero [of zero_bid_example] z
  have 1: "get_best_ask (run zero_bid_example) = 0" by simp
  from best_price_or_zero [of "[]"] e
  have 2: "get_best_bid (run []) = 0" by simp
  from best_price_or_zero [of "scenario_1 1 2 3 4 5 6 7"] a b
  have 3: "\<exists>b \<in> set (buy_orders (run (scenario_1 1 2 3 4 5 6 7))).
      active (store (run (scenario_1 1 2 3 4 5 6 7))) b \<and>
      get_best_bid (run (scenario_1 1 2 3 4 5 6 7)) = price (store (run (scenario_1 1 2 3 4 5 6 7)) b)"
    and 4: "\<exists>a \<in> set (sell_orders (run (scenario_1 1 2 3 4 5 6 7))).
      active (store (run (scenario_1 1 2 3 4 5 6 7))) a \<and>
      get_best_ask (run (scenario_1 1 2 3 4 5 6 7)) = price (store (run (scenario_1 1 2 3 4 5 6 7)) a)"
    by blast+
  from 1 2 3 4 z e show ?thesis by simp
qed

section \<open>Cancelling\<close>

text \<open>
  C6 says that \<open>cancel_order\<close> returns false on an order that is already fully filled and
  changes nothing. In the example both orders are fully filled by the one trade and are on
  no queue. Order 1, which was resting, has been erased from \<open>order_map\<close> by the trade block
  and \<open>cancel_order\<close> returns false on it. Order 2, the incoming one, was entered in
  \<open>order_map\<close> before the match (line 96) and is never erased: \<open>cancel_order\<close> returns true
  on it and erases it then.
\<close>

theorem cancel_filled_taker_returns_true:
  "limit_ids init_book filled_taker_example = [1, 2] \<and>
   trades (run filled_taker_example) = [new_trade 2 1 100 10] \<and>
   remaining_quantity (store (run filled_taker_example) 1) = 0 \<and>
   remaining_quantity (store (run filled_taker_example) 2) = 0 \<and>
   buy_orders (run filled_taker_example) = [] \<and>
   order_map (run filled_taker_example) 1 = None \<and>
   fst (cancel_order (run filled_taker_example) 1) = False \<and>
   order_map (run filled_taker_example) 2 = Some 2 \<and>
   fst (cancel_order (run filled_taker_example) 2) = True \<and>
   order_map (snd (cancel_order (run filled_taker_example) 2)) 2 = None"
  by (simp add: filled_taker_example_def run_def loop_simps op_defs)

text \<open>
  What \<open>cancel_order\<close> does in general: it returns whether the id is in \<open>order_map\<close>; if
  not, nothing changes; if so, the order gets remaining quantity 0 and the id is erased.
\<close>

lemma cancel_order_result:
  "fst (cancel_order s i) \<longleftrightarrow> i \<in> dom (order_map s)"
  "i \<notin> dom (order_map s) \<Longrightarrow> snd (cancel_order s i) = s"
  "order_map s i = Some p \<Longrightarrow>
     remaining_quantity (store (snd (cancel_order s i)) p) = 0 \<and>
     order_map (snd (cancel_order s i)) i = None"
  by (auto simp: cancel_order_def split: option.splits)

end
